theory Spec2Isabelle
  imports Main
begin

section \<open>The file of main.cpp: a header and a sequence of slots\<close>

text \<open>
  The program keeps a doubly linked list of records inside one binary file. Cell 0 of the
  file is the header, cells 1, 2, ... are the slots; a slot is addressed by its 1-based
  position, and the links between slots are positions too, with -1 for "none".

  The C type \<^verbatim>\<open>int\<close> is modelled by \<^typ>\<open>int\<close>. Keys are only compared, and the only
  arithmetic is \<^verbatim>\<open>i + 1\<close> in \<^verbatim>\<open>inicializar\<close> and \<^verbatim>\<open>quant++\<close>, \<^verbatim>\<open>quant--\<close>, which stay
  between 0 and the capacity (lemma \<open>roda_limites\<close> below), so no operation wraps
  around as long as the capacity is below \<open>2^31 - 1\<close>.

  \<^verbatim>\<open>char nome[30]\<close> is modelled by the list of its bytes.
\<close>

record dados =
  chave :: int
  nome :: string

text \<open>
  The two members of \<^verbatim>\<open>union celula\<close>. The field \<^verbatim>\<open>last\<close> of the header is called
  \<open>last_cab\<close> here, because \<open>last\<close> is the name of a list function.
\<close>

record cabecalho =
  quant :: int
  first :: int
  last_cab :: int
  free :: int
  tam :: int

record lista =
  "next" :: int
  prev :: int
  reg :: dados

text \<open>
  The file: the header cell and the slots that follow it. The union is split into its two
  readings: the program reads the header only at offset 0, and a slot only at the offset
  of a position taken from a link. Position 0 would be the header cell read as a slot,
  and any other position outside \<open>1..length nos\<close> is outside the file; the model
  treats all of them as a failed read. Lemma \<open>executa_inv\<close> below shows that no call
  made on a file reached from \<^verbatim>\<open>inicializar\<close> with at least one slot reads such a
  position.
\<close>

record arquivo =
  cab :: cabecalho
  nos :: "lista list"

text \<open>
  \<^verbatim>\<open>arq.seekg(sizeof(celula) + (pos-1)*sizeof(celula)); arq.read(...)\<close>: reading the slot
  at \<open>pos\<close>. A position outside the file makes the read fail, which is the value
  \<open>None\<close>.
\<close>

definition ler :: "arquivo \<Rightarrow> int \<Rightarrow> lista option" where
  "ler a pos =
     (if 1 \<le> pos \<and> pos \<le> int (length (nos a)) then Some (nos a ! nat (pos - 1)) else None)"

text \<open>
  \<^verbatim>\<open>arq.seekp(...); arq.write(...)\<close>: writing the slot at \<open>pos\<close>. Every write of the
  program goes to a position that the same call has read before, so it never extends the
  file.
\<close>

definition escrever :: "arquivo \<Rightarrow> int \<Rightarrow> lista \<Rightarrow> arquivo" where
  "escrever a pos l = a\<lparr>nos := (nos a)[nat (pos - 1) := l]\<rparr>"

text \<open>\<^verbatim>\<open>strcpy(dst, src)\<close> on a byte array: the bytes of \<open>src\<close>, a NUL, and the rest of
  \<open>dst\<close> as it was.\<close>

definition strcpy :: "string \<Rightarrow> string \<Rightarrow> string" where
  "strcpy dst src = src @ [CHR 0x00] @ drop (length src + 1) dst"

subsection \<open>inicializar\<close>

text \<open>
  The header, then one free slot for each \<open>i\<close> from 1 to \<open>n\<close>. The variable \<^verbatim>\<open>l\<close> is
  never initialised, so the \<^verbatim>\<open>nome\<close> bytes written to each slot are whatever the stack
  held: the parameter \<open>lixo\<close>. For \<open>n < 1\<close> the loop body never runs and the file has
  no slot.
\<close>

definition inicializar :: "int \<Rightarrow> string \<Rightarrow> arquivo" where
  "inicializar n lixo =
     \<lparr>cab = \<lparr>quant = 0, first = -1, last_cab = -1, free = 1, tam = n\<rparr>,
      nos = map (\<lambda>i. \<lparr>next = (if i = n then -1 else i + 1), prev = -1,
                      reg = \<lparr>chave = -1, nome = lixo\<rparr>\<rparr>) [1..n]\<rparr>"

subsection \<open>pesquisa\<close>

text \<open>
  The result of the search loop: the slot found (\<^verbatim>\<open>return true\<close>, with \<^verbatim>\<open>resultado\<close>),
  not found (\<^verbatim>\<open>return false\<close>), or a read outside the file. The loop may run forever on
  a file whose links form a cycle: the loops are partial functions, with \<open>None\<close> for a
  loop that does not return.
\<close>

datatype busca = Achou lista | NaoAchou | FalhaLeitura

partial_function (option) pesquisa_laco :: "arquivo \<Rightarrow> int \<Rightarrow> int \<Rightarrow> busca option" where
  "pesquisa_laco a chv atual =
     (if atual = -1 then Some NaoAchou
      else case ler a atual of
             None \<Rightarrow> Some FalhaLeitura
           | Some resultado \<Rightarrow>
               if chave (reg resultado) = chv then Some (Achou resultado)
               else pesquisa_laco a chv (next resultado))"

declare pesquisa_laco.simps [code]

definition pesquisa :: "arquivo \<Rightarrow> int \<Rightarrow> busca option" where
  "pesquisa a chv = pesquisa_laco a chv (first (cab a))"

subsection \<open>inserir\<close>

text \<open>
  How a call ends. \<open>FalhaES\<close> is a read outside the file: the stream's failbit is then
  set and never cleared, so no later write of the call reaches the file, and the file
  keeps the contents it had at that point. What the C function prints or returns after
  such a read depends on uninitialised memory; the model only records the file.
\<close>

datatype desfecho = Feito | ChaveExistente | ArquivoCheio | ChaveAusente | FalhaES

text \<open>The block \<^verbatim>\<open>if (cab.cabecalho.last != -1) { ... }\<close>: the old last node gets the
  new one as its successor.\<close>

definition liga_ultimo :: "arquivo \<Rightarrow> cabecalho \<Rightarrow> arquivo option" where
  "liga_ultimo a c =
     (if last_cab c \<noteq> -1
      then (case ler a (last_cab c) of
              None \<Rightarrow> None
            | Some lastNode \<Rightarrow> Some (escrever a (last_cab c) (lastNode\<lparr>next := free c\<rparr>)))
      else Some a)"

text \<open>The function after the duplicate check.\<close>

definition inserir_livre :: "arquivo \<Rightarrow> dados \<Rightarrow> desfecho \<times> arquivo" where
  "inserir_livre a d =
     (let c = cab a in
      if free c = -1 then (ArquivoCheio, a)
      else (case ler a (free c) of
              None \<Rightarrow> (FalhaES, a)
            | Some l0 \<Rightarrow>
               (let livre = next l0;
                    l = l0\<lparr>reg := d, next := -1, prev := last_cab c\<rparr>
                in (case liga_ultimo a c of
                      None \<Rightarrow> (FalhaES, a)
                    | Some a1 \<Rightarrow>
                       (let a2 = escrever a1 (free c) l;
                            c1 = (if first c = -1 then c\<lparr>first := free c\<rparr> else c);
                            c2 = c1\<lparr>last_cab := free c, free := livre, quant := quant c1 + 1\<rparr>
                        in (Feito, a2\<lparr>cab := c2\<rparr>))))))"

definition inserir :: "arquivo \<Rightarrow> dados \<Rightarrow> (desfecho \<times> arquivo) option" where
  "inserir a d =
     (case pesquisa a (chave d) of
        None \<Rightarrow> None
      | Some (Achou existente) \<Rightarrow> Some (ChaveExistente, a)
      | Some FalhaLeitura \<Rightarrow> Some (FalhaES, a)
      | Some NaoAchou \<Rightarrow> Some (inserir_livre a d))"

subsection \<open>inserirOrdenado\<close>

text \<open>
  The scan for the insertion point: it returns \<^verbatim>\<open>atual\<close> and \<^verbatim>\<open>anterior_pos\<close> when the
  loop ends, \<open>Some None\<close> when a read fails.
\<close>

partial_function (option) procura_posicao ::
    "arquivo \<Rightarrow> int \<Rightarrow> int \<Rightarrow> int \<Rightarrow> (int \<times> int) option option" where
  "procura_posicao a chv atual anterior_pos =
     (if atual = -1 then Some (Some (atual, anterior_pos))
      else case ler a atual of
             None \<Rightarrow> Some None
           | Some l \<Rightarrow>
               if chave (reg l) > chv then Some (Some (atual, anterior_pos))
               else procura_posicao a chv (next l) atual)"

declare procura_posicao.simps [code]

text \<open>The three branches after the scan; each returns the new node, the file and the
  header as the branch leaves them, or \<open>None\<close> when a read fails (nothing is written
  before a read that can fail).\<close>

definition insere_inicio :: "arquivo \<Rightarrow> cabecalho \<Rightarrow> lista \<Rightarrow> (lista \<times> arquivo \<times> cabecalho) option" where
  "insere_inicio a c novo =
     (case ler a (first c) of
        None \<Rightarrow> None
      | Some l \<Rightarrow>
          Some (novo\<lparr>next := first c, prev := -1\<rparr>,
                escrever a (first c) (l\<lparr>prev := free c\<rparr>),
                c\<lparr>first := free c\<rparr>))"

definition insere_final :: "arquivo \<Rightarrow> cabecalho \<Rightarrow> lista \<Rightarrow> (lista \<times> arquivo \<times> cabecalho) option" where
  "insere_final a c novo =
     (case ler a (last_cab c) of
        None \<Rightarrow> None
      | Some l \<Rightarrow>
          Some (novo\<lparr>prev := last_cab c\<rparr>,
                escrever a (last_cab c) (l\<lparr>next := free c\<rparr>),
                c\<lparr>last_cab := free c\<rparr>))"

definition insere_meio ::
    "arquivo \<Rightarrow> cabecalho \<Rightarrow> lista \<Rightarrow> int \<Rightarrow> int \<Rightarrow> (lista \<times> arquivo \<times> cabecalho) option" where
  "insere_meio a c novo atual anterior_pos =
     (case ler a anterior_pos of
        None \<Rightarrow> None
      | Some anterior \<Rightarrow>
         (let a1 = escrever a anterior_pos (anterior\<lparr>next := free c\<rparr>) in
          (case ler a1 atual of
             None \<Rightarrow> None
           | Some proximo \<Rightarrow>
               Some (novo\<lparr>prev := anterior_pos, next := atual\<rparr>,
                     escrever a1 atual (proximo\<lparr>prev := free c\<rparr>),
                     c))))"

text \<open>The \<^verbatim>\<open>if (cab.cabecalho.first == -1) ... else ...\<close> statement: the outer
  \<open>None\<close> is a scan that does not return, \<open>Some None\<close> a failed read.\<close>

definition encaixa ::
    "arquivo \<Rightarrow> cabecalho \<Rightarrow> lista \<Rightarrow> int \<Rightarrow> (lista \<times> arquivo \<times> cabecalho) option option" where
  "encaixa a c novo chv =
     (if first c = -1
      then Some (Some (novo, a, c\<lparr>first := free c, last_cab := free c\<rparr>))
      else (case procura_posicao a chv (first c) (-1) of
              None \<Rightarrow> None
            | Some None \<Rightarrow> Some None
            | Some (Some (atual, anterior_pos)) \<Rightarrow>
                Some (if atual = first c then insere_inicio a c novo
                      else if atual = -1 then insere_final a c novo
                      else insere_meio a c novo atual anterior_pos)))"

text \<open>The function after the duplicate check.\<close>

definition inserirOrdenado_livre :: "arquivo \<Rightarrow> dados \<Rightarrow> (desfecho \<times> arquivo) option" where
  "inserirOrdenado_livre a d =
     (let c = cab a in
      if free c = -1 then Some (ArquivoCheio, a)
      else (case ler a (free c) of
              None \<Rightarrow> Some (FalhaES, a)
            | Some novo0 \<Rightarrow>
               (let livre = next novo0;
                    novo = novo0\<lparr>reg := d, next := -1, prev := -1\<rparr>
                in (case encaixa a c novo (chave d) of
                      None \<Rightarrow> None
                    | Some None \<Rightarrow> Some (FalhaES, a)
                    | Some (Some (novo1, a1, c1)) \<Rightarrow>
                       (let a2 = escrever a1 (free c) novo1;
                            c2 = c1\<lparr>free := livre, quant := quant c1 + 1\<rparr>
                        in Some (Feito, a2\<lparr>cab := c2\<rparr>))))))"

definition inserirOrdenado :: "arquivo \<Rightarrow> dados \<Rightarrow> (desfecho \<times> arquivo) option" where
  "inserirOrdenado a d =
     (case pesquisa a (chave d) of
        None \<Rightarrow> None
      | Some (Achou existente) \<Rightarrow> Some (ChaveExistente, a)
      | Some FalhaLeitura \<Rightarrow> Some (FalhaES, a)
      | Some NaoAchou \<Rightarrow> inserirOrdenado_livre a d)"

subsection \<open>remover\<close>

text \<open>
  The body of \<^verbatim>\<open>if (l.lista.reg.chave == chave)\<close>: \<open>l\<close> is the slot read at \<open>atual\<close>.
  The read of the successor comes after the write of the predecessor, so a failure there
  leaves the predecessor's write in the file.
\<close>

definition desliga_anterior :: "arquivo \<Rightarrow> cabecalho \<Rightarrow> lista \<Rightarrow> (arquivo \<times> cabecalho) option" where
  "desliga_anterior a c l =
     (if prev l \<noteq> -1
      then (case ler a (prev l) of
              None \<Rightarrow> None
            | Some anterior \<Rightarrow> Some (escrever a (prev l) (anterior\<lparr>next := next l\<rparr>), c))
      else Some (a, c\<lparr>first := next l\<rparr>))"

definition desliga_proximo :: "arquivo \<Rightarrow> cabecalho \<Rightarrow> lista \<Rightarrow> (arquivo \<times> cabecalho) option" where
  "desliga_proximo a c l =
     (if next l \<noteq> -1
      then (case ler a (next l) of
              None \<Rightarrow> None
            | Some proximo \<Rightarrow> Some (escrever a (next l) (proximo\<lparr>prev := prev l\<rparr>), c))
      else Some (a, c\<lparr>last_cab := prev l\<rparr>))"

definition libera :: "arquivo \<Rightarrow> cabecalho \<Rightarrow> int \<Rightarrow> lista \<Rightarrow> arquivo" where
  "libera a c atual l =
     (let l' = l\<lparr>next := free c, prev := -1,
                reg := \<lparr>chave = -1, nome = strcpy (nome (reg l)) ''[LIVRE]''\<rparr>\<rparr>;
          a3 = escrever a atual l';
          c3 = c\<lparr>free := atual, quant := quant c - 1\<rparr>;
          c4 = (if quant c3 = 0 then c3\<lparr>first := -1, last_cab := -1\<rparr> else c3)
      in a3\<lparr>cab := c4\<rparr>)"

definition desliga :: "arquivo \<Rightarrow> int \<Rightarrow> lista \<Rightarrow> desfecho \<times> arquivo" where
  "desliga a atual l =
     (case desliga_anterior a (cab a) l of
        None \<Rightarrow> (FalhaES, a)
      | Some (a1, c1) \<Rightarrow>
         (case desliga_proximo a1 c1 l of
            None \<Rightarrow> (FalhaES, a1)
          | Some (a2, c2) \<Rightarrow> (Feito, libera a2 c2 atual l)))"

text \<open>The search loop of \<^verbatim>\<open>remover\<close>; \<^verbatim>\<open>anterior_pos\<close> is assigned there but never
  read, so it is left out. \<open>Feito\<close> is \<^verbatim>\<open>return true\<close>, \<open>ChaveAusente\<close> is
  \<^verbatim>\<open>return false\<close>.\<close>

partial_function (option) remover_laco :: "arquivo \<Rightarrow> int \<Rightarrow> int \<Rightarrow> (desfecho \<times> arquivo) option" where
  "remover_laco a chv atual =
     (if atual = -1 then Some (ChaveAusente, a)
      else case ler a atual of
             None \<Rightarrow> Some (FalhaES, a)
           | Some l \<Rightarrow>
               if chave (reg l) = chv then Some (desliga a atual l)
               else remover_laco a chv (next l))"

declare remover_laco.simps [code]

definition remover :: "arquivo \<Rightarrow> int \<Rightarrow> (desfecho \<times> arquivo) option" where
  "remover a chv = remover_laco a chv (first (cab a))"

subsection \<open>Sequences of operations\<close>

text \<open>The calls the menu can make on the file after it has been initialised, and their
  effect one after the other. A call that ends in an error leaves the file as the
  functions above say, and the next call starts from there.\<close>

datatype operacao = Inserir dados | InserirOrdenado dados | Remover int

fun executa :: "arquivo \<Rightarrow> operacao \<Rightarrow> (desfecho \<times> arquivo) option" where
  "executa a (Inserir d) = inserir a d"
| "executa a (InserirOrdenado d) = inserirOrdenado a d"
| "executa a (Remover chv) = remover a chv"

fun roda :: "arquivo \<Rightarrow> operacao list \<Rightarrow> arquivo option" where
  "roda a [] = Some a"
| "roda a (opr # oprs) =
     (case executa a opr of None \<Rightarrow> None | Some (r, a') \<Rightarrow> roda a' oprs)"

subsection \<open>The two chains of a file\<close>

text \<open>
  The slots met by following \<open>next\<close> (or \<open>prev\<close>) from a position, with the contents
  read, as \<^verbatim>\<open>imprimirLista\<close> and \<^verbatim>\<open>imprimirFree\<close> enumerate them. The walk ends at -1
  and at a position that is not a slot of the file; it visits at most as many slots as
  the file has, which is enough for every chain that does not run in a circle.
\<close>

fun segue_next :: "arquivo \<Rightarrow> nat \<Rightarrow> int \<Rightarrow> (int \<times> lista) list" where
  "segue_next a 0 pos = []"
| "segue_next a (Suc k) pos =
     (if pos = -1 then []
      else case ler a pos of
             None \<Rightarrow> []
           | Some l \<Rightarrow> (pos, l) # segue_next a k (next l))"

fun segue_prev :: "arquivo \<Rightarrow> nat \<Rightarrow> int \<Rightarrow> (int \<times> lista) list" where
  "segue_prev a 0 pos = []"
| "segue_prev a (Suc k) pos =
     (if pos = -1 then []
      else case ler a pos of
             None \<Rightarrow> []
           | Some l \<Rightarrow> (pos, l) # segue_prev a k (prev l))"

definition cadeia_ativa :: "arquivo \<Rightarrow> (int \<times> lista) list" where
  "cadeia_ativa a = segue_next a (length (nos a)) (first (cab a))"

definition cadeia_reversa :: "arquivo \<Rightarrow> (int \<times> lista) list" where
  "cadeia_reversa a = segue_prev a (length (nos a)) (last_cab (cab a))"

definition cadeia_livre :: "arquivo \<Rightarrow> (int \<times> lista) list" where
  "cadeia_livre a = segue_next a (length (nos a)) (free (cab a))"

section \<open>The representation invariant\<close>

text \<open>
  \<open>ativa rd p c xs e\<close>: starting at position \<open>c\<close>, the slots read through \<open>rd\<close> form a
  doubly linked segment holding the positions and records \<open>xs\<close>; the \<open>prev\<close> of its
  first slot is \<open>p\<close> and the \<open>next\<close> of its last slot is \<open>e\<close>.
  \<open>livres rd c fs\<close>: starting at \<open>c\<close>, the slots \<open>fs\<close> are linked by \<open>next\<close> up to -1
  and each carries the key -1.
\<close>

fun ativa :: "(int \<Rightarrow> lista option) \<Rightarrow> int \<Rightarrow> int \<Rightarrow> (int \<times> dados) list \<Rightarrow> int \<Rightarrow> bool" where
  "ativa rd p c [] e = (c = e)"
| "ativa rd p c (x # xs) e =
     (c = fst x \<and>
      (case rd (fst x) of
         None \<Rightarrow> False
       | Some l \<Rightarrow> prev l = p \<and> reg l = snd x \<and> ativa rd (fst x) (next l) xs e))"

fun livres :: "(int \<Rightarrow> lista option) \<Rightarrow> int \<Rightarrow> int list \<Rightarrow> bool" where
  "livres rd c [] = (c = -1)"
| "livres rd c (x # xs) =
     (c = x \<and>
      (case rd x of
         None \<Rightarrow> False
       | Some l \<Rightarrow> chave (reg l) = -1 \<and> livres rd (next l) xs))"

definition pri :: "int \<Rightarrow> (int \<times> dados) list \<Rightarrow> int" where
  "pri e xs = (case xs of [] \<Rightarrow> e | x # _ \<Rightarrow> fst x)"

definition ult :: "int \<Rightarrow> (int \<times> dados) list \<Rightarrow> int" where
  "ult p xs = (if xs = [] then p else fst (last xs))"

definition representa :: "arquivo \<Rightarrow> (int \<times> dados) list \<Rightarrow> int list \<Rightarrow> bool" where
  "representa a as fs \<longleftrightarrow>
     ativa (ler a) (-1) (first (cab a)) as (-1) \<and>
     last_cab (cab a) = ult (-1) as \<and>
     quant (cab a) = int (length as) \<and>
     livres (ler a) (free (cab a)) fs \<and>
     distinct (map fst as @ fs) \<and>
     set (map fst as) \<union> set fs = {1..tam (cab a)} \<and>
     int (length (nos a)) = tam (cab a)"

text \<open>The effect of each call on the two lists.\<close>

fun abs_executa :: "(int \<times> dados) list \<times> int list \<Rightarrow> operacao \<Rightarrow> (int \<times> dados) list \<times> int list" where
  "abs_executa (as, fs) (Inserir d) =
     (if chave d \<in> set (map (chave \<circ> snd) as) then (as, fs)
      else case fs of [] \<Rightarrow> (as, fs) | c # fs' \<Rightarrow> (as @ [(c, d)], fs'))"
| "abs_executa (as, fs) (InserirOrdenado d) =
     (if chave d \<in> set (map (chave \<circ> snd) as) then (as, fs)
      else case fs of
             [] \<Rightarrow> (as, fs)
           | c # fs' \<Rightarrow>
               (takeWhile (\<lambda>x. chave (snd x) \<le> chave d) as @
                  (c, d) # dropWhile (\<lambda>x. chave (snd x) \<le> chave d) as, fs'))"
| "abs_executa (as, fs) (Remover chv) =
     (case dropWhile (\<lambda>x. chave (snd x) \<noteq> chv) as of
        [] \<Rightarrow> (as, fs)
      | x # ys \<Rightarrow> (takeWhile (\<lambda>x. chave (snd x) \<noteq> chv) as @ ys, fst x # fs))"

fun abs_roda :: "(int \<times> dados) list \<times> int list \<Rightarrow> operacao list \<Rightarrow> (int \<times> dados) list \<times> int list" where
  "abs_roda s [] = s"
| "abs_roda s (opr # oprs) = abs_roda (abs_executa s opr) oprs"

section \<open>Predicates on calls and example runs\<close>

text \<open>A sequence of calls that never uses \<^verbatim>\<open>inserir\<close>; one that never passes the key
  -1; and the outcomes that report an error or an absent key.\<close>

fun so_ordenado :: "operacao \<Rightarrow> bool" where
  "so_ordenado (Inserir d) = False"
| "so_ordenado (InserirOrdenado d) = True"
| "so_ordenado (Remover chv) = True"

fun chave_valida :: "operacao \<Rightarrow> bool" where
  "chave_valida (Inserir d) = (chave d \<noteq> -1)"
| "chave_valida (InserirOrdenado d) = (chave d \<noteq> -1)"
| "chave_valida (Remover chv) = True"

fun aborta :: "operacao \<Rightarrow> desfecho \<Rightarrow> bool" where
  "aborta (Inserir d) r = (r = ChaveExistente \<or> r = ArquivoCheio)"
| "aborta (InserirOrdenado d) r = (r = ChaveExistente \<or> r = ArquivoCheio)"
| "aborta (Remover chv) r = (r = ChaveAusente)"

text \<open>A run used to instantiate the theorems below: three ordered insertions
  and one removal on a file of capacity 3.\<close>

definition oprs_exemplo :: "operacao list" where
  "oprs_exemplo =
     [InserirOrdenado \<lparr>chave = 2, nome = ''B''\<rparr>, InserirOrdenado \<lparr>chave = 5, nome = ''A''\<rparr>,
      InserirOrdenado \<lparr>chave = 3, nome = ''C''\<rparr>, Remover 3]"

definition arq_exemplo :: arquivo where
  "arq_exemplo =
     \<lparr>cab = \<lparr>quant = 2, first = 1, last_cab = 2, free = 3, tam = 3\<rparr>,
      nos = [\<lparr>next = 2, prev = -1, reg = \<lparr>chave = 2, nome = ''B''\<rparr>\<rparr>,
             \<lparr>next = -1, prev = 1, reg = \<lparr>chave = 5, nome = ''A''\<rparr>\<rparr>,
             \<lparr>next = -1, prev = -1,
              reg = \<lparr>chave = -1, nome = ''[LIVRE]'' @ [CHR 0x00]\<rparr>\<rparr>]\<rparr>"

text \<open>The file of capacity 1 after a caller has inserted a record with the key -1.\<close>

definition arq_sentinela :: arquivo where
  "arq_sentinela =
     \<lparr>cab = \<lparr>quant = 1, first = 1, last_cab = 1, free = -1, tam = 1\<rparr>,
      nos = [\<lparr>next = -1, prev = -1, reg = \<lparr>chave = -1, nome = ''A''\<rparr>\<rparr>]\<rparr>"

section \<open>Reading and writing slots\<close>

lemma ler_cab [simp]: "ler (a\<lparr>cab := c\<rparr>) = ler a"
  by (rule ext) (simp add: ler_def)

lemma cab_escrever [simp]: "cab (escrever a x l) = cab a"
  by (simp add: escrever_def)

lemma length_nos_escrever [simp]: "length (nos (escrever a x l)) = length (nos a)"
  by (simp add: escrever_def)

lemma ler_Some_range: "ler a x = Some l \<Longrightarrow> 1 \<le> x \<and> x \<le> int (length (nos a))"
  by (simp add: ler_def split: if_splits)

lemma ler_escrever: "ler a x = Some l0 \<Longrightarrow> ler (escrever a x l) = (ler a)(x \<mapsto> l)"
  by (rule ext) (auto simp: ler_def escrever_def nth_list_update split: if_splits)

lemma ativa_upd [simp]: "x \<notin> fst ` set xs \<Longrightarrow> ativa (rd(x \<mapsto> l)) p c xs e = ativa rd p c xs e"
  by (induction xs arbitrary: p c) (auto split: option.splits)

lemma livres_upd [simp]: "x \<notin> set xs \<Longrightarrow> livres (rd(x \<mapsto> l)) c xs = livres rd c xs"
  by (induction xs arbitrary: c) (auto split: option.splits)

lemma ult_Cons [simp]: "ult p (x # xs) = ult (fst x) xs"
  by (simp add: ult_def)

lemma ult_Nil [simp]: "ult p [] = p"
  by (simp add: ult_def)

lemma pri_Cons [simp]: "pri e (x # xs) = fst x"
  by (simp add: pri_def)

lemma pri_Nil [simp]: "pri e [] = e"
  by (simp add: pri_def)

lemma ult_snoc [simp]: "ult p (xs @ [x]) = fst x"
  by (simp add: ult_def)

lemma ativa_append:
  "ativa rd p c (xs @ ys) e = (ativa rd p c xs (pri e ys) \<and> ativa rd (ult p xs) (pri e ys) ys e)"
proof (induction xs arbitrary: p c)
  case Nil
  then show ?case by (cases ys) auto
next
  case (Cons x xs)
  then show ?case by (auto split: option.splits)
qed

lemma ativa_le: "ativa rd p c xs e \<Longrightarrow> x \<in> set xs \<Longrightarrow> \<exists>l. rd (fst x) = Some l \<and> reg l = snd x"
  by (induction xs arbitrary: p c) (auto split: option.splits)

lemma livres_le: "livres rd c fs \<Longrightarrow> x \<in> set fs \<Longrightarrow> \<exists>l. rd x = Some l \<and> chave (reg l) = -1"
  by (induction fs arbitrary: c) (auto split: option.splits)

section \<open>The loops on a well-formed chain\<close>

lemma ler_nos_cong: "nos a = nos b \<Longrightarrow> ler a = ler b"
  by (rule ext) (simp add: ler_def)

lemma ult_append: "ult p (xs @ ys) = ult (ult p xs) ys"
  by (simp add: ult_def)

lemma pri_append: "pri e (xs @ ys) = pri (pri e ys) xs"
  by (cases xs) simp_all

lemma ativa_pri: "ativa rd p c xs e \<Longrightarrow> c = pri e xs"
  by (cases xs) auto

lemma ativa_muda_fim:
  "ativa rd p f (xs @ [x]) e \<Longrightarrow> fst x \<notin> fst ` set xs \<Longrightarrow> rd (fst x) = Some l \<Longrightarrow>
   ativa (rd(fst x \<mapsto> l\<lparr>next := e'\<rparr>)) p f (xs @ [x]) e'"
  by (simp add: ativa_append)

lemma ativa_muda_inicio:
  "ativa rd p f (x # xs) e \<Longrightarrow> fst x \<notin> fst ` set xs \<Longrightarrow> rd (fst x) = Some l \<Longrightarrow>
   ativa (rd(fst x \<mapsto> l\<lparr>prev := p'\<rparr>)) p' f (x # xs) e"
  by simp

lemma pesquisa_laco_ativa:
  "ativa (ler a) p c xs (-1) \<Longrightarrow>
   pesquisa_laco a k c =
     Some (case find (\<lambda>x. chave (snd x) = k) xs of
             None \<Rightarrow> NaoAchou
           | Some x \<Rightarrow> Achou (the (ler a (fst x))))"
proof (induction xs arbitrary: p c)
  case Nil
  then show ?case by (simp add: pesquisa_laco.simps)
next
  case (Cons x xs)
  then obtain l where l: "c = fst x" "ler a (fst x) = Some l" "reg l = snd x"
      "ativa (ler a) (fst x) (next l) xs (-1)"
    by (auto split: option.splits)
  from l(2) have "fst x \<noteq> -1" by (auto dest: ler_Some_range)
  with l Cons.IH [OF l(4), of ] show ?case
    by (subst pesquisa_laco.simps) simp
qed

lemma procura_posicao_ativa:
  "ativa (ler a) p c xs (-1) \<Longrightarrow>
   procura_posicao a k c q =
     Some (Some (pri (-1) (dropWhile (\<lambda>x. chave (snd x) \<le> k) xs),
                 ult q (takeWhile (\<lambda>x. chave (snd x) \<le> k) xs)))"
proof (induction xs arbitrary: p c q)
  case Nil
  then show ?case by (simp add: procura_posicao.simps)
next
  case (Cons x xs)
  then obtain l where l: "c = fst x" "ler a (fst x) = Some l" "reg l = snd x"
      "ativa (ler a) (fst x) (next l) xs (-1)"
    by (auto split: option.splits)
  from l(2) have "fst x \<noteq> -1" by (auto dest: ler_Some_range)
  with l Cons.IH [OF l(4)] show ?case
    by (subst procura_posicao.simps) auto
qed

lemma remover_laco_ativa:
  "ativa (ler a) p c xs (-1) \<Longrightarrow>
   remover_laco a k c =
     Some (case dropWhile (\<lambda>x. chave (snd x) \<noteq> k) xs of
             [] \<Rightarrow> (ChaveAusente, a)
           | x # ys \<Rightarrow> desliga a (fst x) (the (ler a (fst x))))"
proof (induction xs arbitrary: p c)
  case Nil
  then show ?case by (simp add: remover_laco.simps)
next
  case (Cons x xs)
  then obtain l where l: "c = fst x" "ler a (fst x) = Some l" "reg l = snd x"
      "ativa (ler a) (fst x) (next l) xs (-1)"
    by (auto split: option.splits)
  from l(2) have "fst x \<noteq> -1" by (auto dest: ler_Some_range)
  with l Cons.IH [OF l(4)] show ?case
    by (subst remover_laco.simps) auto
qed

section \<open>Splicing a slot into and out of the active chain\<close>

lemma inv_insere:
  assumes I: "representa a (xs @ ys) (c # fs)"
    and ap: "ap = (if xs = [] then a
                   else escrever a (ult (-1) xs) ((the (ler a (ult (-1) xs)))\<lparr>next := c\<rparr>))"
    and aq: "aq = (if ys = [] then ap
                   else escrever ap (pri (-1) ys) ((the (ler ap (pri (-1) ys)))\<lparr>prev := c\<rparr>))"
    and ar: "ar = escrever aq c \<lparr>next = pri (-1) ys, prev = ult (-1) xs, reg = d\<rparr>"
    and h: "cab a' = (cab a)\<lparr>first := pri c xs, last_cab := ult c ys,
                            free := next (the (ler a c)), quant := quant (cab a) + 1\<rparr>"
    and n: "nos a' = nos ar"
  shows "representa a' (xs @ (c, d) # ys) fs"
proof -
  from I have X: "ativa (ler a) (-1) (first (cab a)) xs (pri (-1) ys)"
    and Y: "ativa (ler a) (ult (-1) xs) (pri (-1) ys) ys (-1)"
    and F: "livres (ler a) (free (cab a)) (c # fs)"
    and D: "distinct (map fst xs)" "distinct (map fst ys)" "distinct fs"
      "fst ` set xs \<inter> fst ` set ys = {}" "fst ` set xs \<inter> set fs = {}"
      "fst ` set ys \<inter> set fs = {}" "c \<notin> fst ` set xs" "c \<notin> fst ` set ys" "c \<notin> set fs"
    by (auto simp: representa_def ativa_append)
  from F obtain lc where lc: "free (cab a) = c" "ler a c = Some lc" "livres (ler a) (next lc) fs"
    by (auto split: option.splits)
  \<comment> \<open>the predecessor\<close>
  have "ativa (ler ap) (-1) (pri c xs) xs c \<and> ler ap c = Some lc \<and>
        ativa (ler ap) (ult (-1) xs) (pri (-1) ys) ys (-1) \<and> livres (ler ap) (next lc) fs"
  proof (cases xs rule: rev_cases)
    case Nil
    with Y lc show ?thesis by (simp add: ap)
  next
    case (snoc xs' t)
    with X obtain lt where lt: "ler a (fst t) = Some lt"
      by (auto simp: ativa_append split: option.splits)
    have t: "fst t \<notin> fst ` set xs'" "fst t \<notin> fst ` set ys" "fst t \<notin> set fs" "fst t \<noteq> c"
      using D snoc by auto
    have e: "ler ap = (ler a)(fst t \<mapsto> lt\<lparr>next := c\<rparr>)"
      using lt snoc by (simp add: ap ler_escrever)
    have "ativa (ler ap) (-1) (first (cab a)) (xs' @ [t]) c"
      unfolding e using X t lt snoc by (intro ativa_muda_fim) auto
    moreover have "first (cab a) = pri c xs"
      using X snoc by (cases xs') auto
    ultimately show ?thesis
      using Y lc t snoc by (simp add: e)
  qed
  then have X1: "ativa (ler ap) (-1) (pri c xs) xs c" and lc1: "ler ap c = Some lc"
    and Y1: "ativa (ler ap) (ult (-1) xs) (pri (-1) ys) ys (-1)"
    and F1: "livres (ler ap) (next lc) fs"
    by auto
  \<comment> \<open>the successor\<close>
  have "ativa (ler aq) (-1) (pri c xs) xs c \<and> ler aq c = Some lc \<and>
        ativa (ler aq) c (pri (-1) ys) ys (-1) \<and> livres (ler aq) (next lc) fs"
  proof (cases ys)
    case Nil
    with X1 lc1 Y1 F1 show ?thesis by (simp add: aq)
  next
    case (Cons u ys')
    with Y1 obtain lu where lu: "ler ap (fst u) = Some lu"
      by (auto split: option.splits)
    have u: "fst u \<notin> fst ` set xs" "fst u \<notin> fst ` set ys'" "fst u \<notin> set fs" "fst u \<noteq> c"
      using D Cons by auto
    have e: "ler aq = (ler ap)(fst u \<mapsto> lu\<lparr>prev := c\<rparr>)"
      using lu Cons by (simp add: aq ler_escrever)
    have "ativa (ler aq) c (fst u) (u # ys') (-1)"
      unfolding e using Y1 u lu Cons by (intro ativa_muda_inicio) auto
    then show ?thesis
      using X1 lc1 F1 u Cons by (simp add: e)
  qed
  then have X2: "ativa (ler aq) (-1) (pri c xs) xs c" and lc2: "ler aq c = Some lc"
    and Y2: "ativa (ler aq) c (pri (-1) ys) ys (-1)" and F2: "livres (ler aq) (next lc) fs"
    by auto
  \<comment> \<open>the new node\<close>
  have e3: "ler a' = (ler aq)(c \<mapsto> \<lparr>next = pri (-1) ys, prev = ult (-1) xs, reg = d\<rparr>)"
    using lc2 n by (simp add: ar ler_escrever ler_nos_cong [of a' ar])
  have A: "ativa (ler a') (-1) (first (cab a')) (xs @ (c, d) # ys) (-1)"
    using X2 Y2 D by (simp add: e3 ativa_append h)
  have L: "livres (ler a') (free (cab a')) fs"
    using F2 D lc by (simp add: e3 h)
  have len: "length (nos a') = length (nos a)"
    by (simp add: n ar aq ap)
  show ?thesis
    unfolding representa_def
    using A L D I len lc by (auto simp: representa_def h ult_append)
qed

lemma inv_retira:
  assumes I: "representa a (xs @ x # ys) fs"
    and ap: "ap = (if xs = [] then a
                   else escrever a (ult (-1) xs)
                          ((the (ler a (ult (-1) xs)))\<lparr>next := pri (-1) ys\<rparr>))"
    and aq: "aq = (if ys = [] then ap
                   else escrever ap (pri (-1) ys)
                          ((the (ler ap (pri (-1) ys)))\<lparr>prev := ult (-1) xs\<rparr>))"
    and ar: "ar = escrever aq (fst x) l'"
    and l': "next l' = free (cab a)" "chave (reg l') = -1"
    and h: "cab a' = (cab a)\<lparr>first := pri (-1) (xs @ ys), last_cab := ult (-1) (xs @ ys),
                            free := fst x, quant := quant (cab a) - 1\<rparr>"
    and n: "nos a' = nos ar"
  shows "representa a' (xs @ ys) (fst x # fs)"
proof -
  from I have X: "ativa (ler a) (-1) (first (cab a)) xs (fst x)"
    and Y0: "ativa (ler a) (ult (-1) xs) (fst x) (x # ys) (-1)"
    and F: "livres (ler a) (free (cab a)) fs"
    and D: "distinct (map fst xs)" "distinct (map fst ys)" "distinct fs"
      "fst ` set xs \<inter> fst ` set ys = {}" "fst ` set xs \<inter> set fs = {}"
      "fst ` set ys \<inter> set fs = {}" "fst x \<notin> fst ` set xs" "fst x \<notin> fst ` set ys"
      "fst x \<notin> set fs"
    by (auto simp: representa_def ativa_append)
  from Y0 obtain lx where lx: "ler a (fst x) = Some lx"
    and Y': "ativa (ler a) (fst x) (next lx) ys (-1)"
    by (auto split: option.splits)
  from Y' have "next lx = pri (-1) ys"
    by (rule ativa_pri)
  with Y' have Y: "ativa (ler a) (fst x) (pri (-1) ys) ys (-1)"
    by simp
  \<comment> \<open>the predecessor\<close>
  have "ativa (ler ap) (-1) (pri (-1) (xs @ ys)) xs (pri (-1) ys) \<and> ler ap (fst x) = Some lx \<and>
        ativa (ler ap) (fst x) (pri (-1) ys) ys (-1) \<and> livres (ler ap) (free (cab a)) fs"
  proof (cases xs rule: rev_cases)
    case Nil
    with Y lx F show ?thesis by (simp add: ap)
  next
    case (snoc xs' t)
    with X obtain lt where lt: "ler a (fst t) = Some lt"
      by (auto simp: ativa_append split: option.splits)
    have t: "fst t \<notin> fst ` set xs'" "fst t \<notin> fst ` set ys" "fst t \<notin> set fs" "fst t \<noteq> fst x"
      using D snoc by auto
    have e: "ler ap = (ler a)(fst t \<mapsto> lt\<lparr>next := pri (-1) ys\<rparr>)"
      using lt snoc by (simp add: ap ler_escrever)
    have "ativa (ler ap) (-1) (first (cab a)) (xs' @ [t]) (pri (-1) ys)"
      unfolding e using X t lt snoc by (intro ativa_muda_fim) auto
    moreover have "first (cab a) = pri (-1) (xs @ ys)"
      using X snoc by (cases xs') auto
    ultimately show ?thesis
      using Y lx F t snoc by (simp add: e)
  qed
  then have X1: "ativa (ler ap) (-1) (pri (-1) (xs @ ys)) xs (pri (-1) ys)"
    and lx1: "ler ap (fst x) = Some lx"
    and Y1: "ativa (ler ap) (fst x) (pri (-1) ys) ys (-1)"
    and F1: "livres (ler ap) (free (cab a)) fs"
    by auto
  \<comment> \<open>the successor\<close>
  have "ativa (ler aq) (-1) (pri (-1) (xs @ ys)) xs (pri (-1) ys) \<and> ler aq (fst x) = Some lx \<and>
        ativa (ler aq) (ult (-1) xs) (pri (-1) ys) ys (-1) \<and> livres (ler aq) (free (cab a)) fs"
  proof (cases ys)
    case Nil
    with X1 lx1 Y1 F1 show ?thesis by (simp add: aq)
  next
    case (Cons u ys')
    with Y1 obtain lu where lu: "ler ap (fst u) = Some lu"
      by (auto split: option.splits)
    have u: "fst u \<notin> fst ` set xs" "fst u \<notin> fst ` set ys'" "fst u \<notin> set fs" "fst u \<noteq> fst x"
      using D Cons by auto
    have e: "ler aq = (ler ap)(fst u \<mapsto> lu\<lparr>prev := ult (-1) xs\<rparr>)"
      using lu Cons by (simp add: aq ler_escrever)
    have "ativa (ler aq) (ult (-1) xs) (fst u) (u # ys') (-1)"
      unfolding e using Y1 u lu Cons by (intro ativa_muda_inicio) auto
    then show ?thesis
      using X1 lx1 F1 u Cons by (simp add: e)
  qed
  then have X2: "ativa (ler aq) (-1) (pri (-1) (xs @ ys)) xs (pri (-1) ys)"
    and lx2: "ler aq (fst x) = Some lx"
    and Y2: "ativa (ler aq) (ult (-1) xs) (pri (-1) ys) ys (-1)"
    and F2: "livres (ler aq) (free (cab a)) fs"
    by auto
  \<comment> \<open>the freed node\<close>
  have e3: "ler a' = (ler aq)(fst x \<mapsto> l')"
    using lx2 n by (simp add: ar ler_escrever ler_nos_cong [of a' ar])
  have A: "ativa (ler a') (-1) (first (cab a')) (xs @ ys) (-1)"
    using X2 Y2 D by (simp add: e3 ativa_append h)
  have L: "livres (ler a') (free (cab a')) (fst x # fs)"
    using F2 D l' by (simp add: e3 h)
  have len: "length (nos a') = length (nos a)"
    by (simp add: n ar aq ap)
  show ?thesis
    unfolding representa_def
    using A L D I len by (auto simp: representa_def h)
qed

section \<open>The operations keep the invariant\<close>

lemma inv_ativa_le: "representa a as fs \<Longrightarrow> x \<in> set as \<Longrightarrow> \<exists>l. ler a (fst x) = Some l \<and> reg l = snd x"
  unfolding representa_def by (blast dest: ativa_le)

lemma inv_first: "representa a as fs \<Longrightarrow> first (cab a) = pri (-1) as"
  unfolding representa_def by (blast dest: ativa_pri)

lemma inv_ativa_pos: "representa a as fs \<Longrightarrow> x \<in> set as \<Longrightarrow> 1 \<le> fst x \<and> fst x \<le> tam (cab a)"
  unfolding representa_def by (metis UnI1 atLeastAtMost_iff image_eqI list.set_map)

lemma inv_livre_pos: "representa a as fs \<Longrightarrow> x \<in> set fs \<Longrightarrow> 1 \<le> x \<and> x \<le> tam (cab a)"
  unfolding representa_def by (metis UnI2 atLeastAtMost_iff)

lemma inv_first_vazia: "representa a as fs \<Longrightarrow> first (cab a) = -1 \<longleftrightarrow> as = []"
  using inv_first [of a as fs] inv_ativa_pos [of a as fs "hd as"]
  by (cases as) auto

lemma inv_last_vazia: "representa a as fs \<Longrightarrow> last_cab (cab a) = -1 \<longleftrightarrow> as = []"
  using inv_ativa_pos [of a as fs "last as"]
  by (auto simp: representa_def ult_def)

lemma inv_free: "representa a as fs \<Longrightarrow> free (cab a) = (case fs of [] \<Rightarrow> -1 | c # _ \<Rightarrow> c)"
  unfolding representa_def by (cases fs) auto

lemma inv_free_vazia: "representa a as fs \<Longrightarrow> free (cab a) = -1 \<longleftrightarrow> fs = []"
  using inv_free [of a as fs] inv_livre_pos [of a as fs "hd fs"]
  by (cases fs) auto

lemma find_chave_None:
  "find (\<lambda>x. chave (snd x) = k) as = None \<longleftrightarrow> k \<notin> set (map (chave \<circ> snd) as)"
  by (induction as) auto

lemma pesquisa_inv:
  "representa a as fs \<Longrightarrow>
   pesquisa a k =
     Some (case find (\<lambda>x. chave (snd x) = k) as of
             None \<Rightarrow> NaoAchou
           | Some x \<Rightarrow> Achou (the (ler a (fst x))))"
  unfolding pesquisa_def representa_def by (blast intro: pesquisa_laco_ativa)

lemma pesquisa_inv_ausente:
  "representa a as fs \<Longrightarrow> k \<notin> set (map (chave \<circ> snd) as) \<Longrightarrow> pesquisa a k = Some NaoAchou"
  using find_chave_None [of k as] by (simp add: pesquisa_inv)

lemma pesquisa_inv_presente:
  "representa a as fs \<Longrightarrow> k \<in> set (map (chave \<circ> snd) as) \<Longrightarrow> \<exists>l. pesquisa a k = Some (Achou l)"
  using find_chave_None [of k as] by (auto simp: pesquisa_inv split: option.splits)

lemma inserir_inv_feito:
  assumes I: "representa a as (c # fs)" and k: "chave d \<notin> set (map (chave \<circ> snd) as)"
  shows "\<exists>a'. inserir a d = Some (Feito, a') \<and> representa a' (as @ [(c, d)]) fs"
proof -
  from I have fc: "free (cab a) = c" and cpos: "c \<noteq> -1"
    using inv_free [OF I] inv_livre_pos [OF I, of c] by auto
  from I obtain l0 where l0: "ler a c = Some l0"
    by (auto simp: representa_def split: option.splits)
  define a1 where "a1 = (if as = [] then a
                   else escrever a (ult (-1) as) ((the (ler a (ult (-1) as)))\<lparr>next := c\<rparr>))"
  have lu: "liga_ultimo a (cab a) = Some a1"
  proof (cases "as = []")
    case True
    with I show ?thesis by (simp add: liga_ultimo_def a1_def representa_def)
  next
    case False
    then have "last as \<in> set as" by simp
    from inv_ativa_le [OF I this] False inv_last_vazia [OF I] I show ?thesis
      by (auto simp: liga_ultimo_def a1_def representa_def ult_def)
  qed
  define a3 where "a3 = escrever a1 c \<lparr>next = pri (-1) [], prev = ult (-1) as, reg = d\<rparr>"
  define a' where "a' = a3\<lparr>cab := (cab a)\<lparr>first := pri c as, last_cab := ult c [],
                            free := next (the (ler a c)), quant := quant (cab a) + 1\<rparr>\<rparr>"
  have "representa a' (as @ (c, d) # []) fs"
    by (rule inv_insere [where a = a and ap = a1 and aq = a1 and ar = a3])
       (use I in \<open>simp_all add: a1_def a3_def a'_def\<close>)
  moreover have "l0\<lparr>reg := d, next := -1, prev := last_cab (cab a)\<rparr> =
                 \<lparr>next = pri (-1) [], prev = ult (-1) as, reg = d\<rparr>"
    using I by (simp add: representa_def)
  then have "inserir_livre a d = (Feito, a')"
    using fc cpos l0 lu inv_first_vazia [OF I] inv_first [OF I]
    by (cases as) (simp_all add: inserir_livre_def Let_def a'_def a3_def)
  ultimately show ?thesis
    using pesquisa_inv_ausente [OF I k] by (simp add: inserir_def)
qed

lemma inserir_inv_existente:
  "representa a as fs \<Longrightarrow> chave d \<in> set (map (chave \<circ> snd) as) \<Longrightarrow>
   inserir a d = Some (ChaveExistente, a)"
  using pesquisa_inv_presente [of a as fs "chave d"] by (auto simp: inserir_def)

lemma inserir_inv_cheio:
  "representa a as [] \<Longrightarrow> chave d \<notin> set (map (chave \<circ> snd) as) \<Longrightarrow>
   inserir a d = Some (ArquivoCheio, a)"
  using pesquisa_inv_ausente [of a as "[]" "chave d"] inv_free [of a as "[]"]
  by (simp add: inserir_def inserir_livre_def)

lemma inserirOrdenado_inv_existente:
  "representa a as fs \<Longrightarrow> chave d \<in> set (map (chave \<circ> snd) as) \<Longrightarrow>
   inserirOrdenado a d = Some (ChaveExistente, a)"
  using pesquisa_inv_presente [of a as fs "chave d"] by (auto simp: inserirOrdenado_def)

lemma inserirOrdenado_inv_cheio:
  "representa a as [] \<Longrightarrow> chave d \<notin> set (map (chave \<circ> snd) as) \<Longrightarrow>
   inserirOrdenado a d = Some (ArquivoCheio, a)"
  using pesquisa_inv_ausente [of a as "[]" "chave d"] inv_free [of a as "[]"]
  by (simp add: inserirOrdenado_def inserirOrdenado_livre_def)

lemma encaixa_inv:
  assumes I: "representa a (xs @ ys) (c # fs)"
    and xs: "xs = takeWhile (\<lambda>x. chave (snd x) \<le> k) (xs @ ys)"
    and ys: "ys = dropWhile (\<lambda>x. chave (snd x) \<le> k) (xs @ ys)"
    and novo: "next novo = -1" "prev novo = -1"
    and ap: "ap = (if xs = [] then a
                   else escrever a (ult (-1) xs) ((the (ler a (ult (-1) xs)))\<lparr>next := c\<rparr>))"
    and aq: "aq = (if ys = [] then ap
                   else escrever ap (pri (-1) ys) ((the (ler ap (pri (-1) ys)))\<lparr>prev := c\<rparr>))"
  shows "encaixa a (cab a) novo k =
         Some (Some (\<lparr>next = pri (-1) ys, prev = ult (-1) xs, reg = reg novo\<rparr>, aq,
                     (cab a)\<lparr>first := pri c xs, last_cab := ult c ys\<rparr>))"
proof -
  have fc: "free (cab a) = c"
    using inv_free [OF I] by simp
  have f: "first (cab a) = pri (-1) (xs @ ys)" and l: "last_cab (cab a) = ult (-1) (xs @ ys)"
    using I inv_first [OF I] by (auto simp: representa_def)
  have P: "procura_posicao a k (first (cab a)) (-1) = Some (Some (pri (-1) ys, ult (-1) xs))"
    using I procura_posicao_ativa [of a "-1" "first (cab a)" "xs @ ys" k "-1"] xs ys
    by (simp add: representa_def)
  have D: "distinct (map fst (xs @ ys))"
    using I by (auto simp: representa_def)
  have R: "\<And>x. x \<in> set (xs @ ys) \<Longrightarrow> \<exists>l. ler a (fst x) = Some l"
    using inv_ativa_le [OF I] by blast
  have N: "\<And>x. x \<in> set (xs @ ys) \<Longrightarrow> fst x \<noteq> -1"
    using inv_ativa_pos [OF I] by force
  show ?thesis
  proof (cases xs rule: rev_cases)
    case Nil
    note xs_Nil = this
    show ?thesis
    proof (cases ys)
      case Nil
      with xs_Nil f novo show ?thesis
        by (cases novo) (simp add: encaixa_def ap aq fc)
    next
      case (Cons u ys')
      from R [of u] Cons obtain lu where "ler a (fst u) = Some lu" by auto
      moreover have "ult c ys = last_cab (cab a)"
        using l xs_Nil Cons by (simp add: ult_def)
      ultimately show ?thesis
        using xs_Nil Cons f l novo P N [of u]
        by (cases novo) (simp add: encaixa_def ap aq fc insere_inicio_def ult_def)
    qed
  next
    case (snoc xs' t)
    note xs_snoc = this
    from R [of t] snoc obtain lt where lt: "ler a (fst t) = Some lt" by auto
    have ft: "first (cab a) = pri (-1) xs" "first (cab a) \<noteq> -1" "pri c xs = first (cab a)"
      using f snoc N [of "hd (xs @ ys)"] by (cases xs'; simp)+
    show ?thesis
    proof (cases ys)
      case Nil
      with xs_snoc ft l novo P lt show ?thesis
        by (cases novo) (simp add: encaixa_def ap aq fc insere_final_def)
    next
      case (Cons u ys')
      from R [of u] Cons obtain lu where lu: "ler a (fst u) = Some lu" by auto
      have ne: "fst u \<noteq> first (cab a)" "fst u \<noteq> fst t" "fst u \<noteq> -1"
        using D ft xs_snoc Cons N [of u] by (cases xs'; force)+
      have lu': "ler ap (fst u) = Some lu"
        using lt lu ne xs_snoc by (simp add: ap ler_escrever)
      have "ult c ys = last_cab (cab a)"
        using l xs_snoc Cons by (simp add: ult_def)
      with xs_snoc Cons ft l novo P lt lu lu' ne show ?thesis
        by (cases novo) (simp add: encaixa_def ap aq fc insere_meio_def ult_append)
    qed
  qed
qed

lemma inserirOrdenado_inv_feito:
  assumes I: "representa a as (c # fs)" and k: "chave d \<notin> set (map (chave \<circ> snd) as)"
  shows "\<exists>a'. inserirOrdenado a d = Some (Feito, a') \<and>
              representa a' (takeWhile (\<lambda>x. chave (snd x) \<le> chave d) as @
                        (c, d) # dropWhile (\<lambda>x. chave (snd x) \<le> chave d) as) fs"
proof -
  define xs where "xs = takeWhile (\<lambda>x. chave (snd x) \<le> chave d) as"
  define ys where "ys = dropWhile (\<lambda>x. chave (snd x) \<le> chave d) as"
  have as: "as = xs @ ys"
    by (simp add: xs_def ys_def)
  note I' = I [unfolded as]
  have fc: "free (cab a) = c" and cpos: "c \<noteq> -1"
    using inv_free [OF I] inv_livre_pos [OF I, of c] by auto
  from I obtain novo0 where novo0: "ler a c = Some novo0"
    by (auto simp: representa_def split: option.splits)
  define novo where "novo = novo0\<lparr>reg := d, next := -1, prev := -1\<rparr>"
  define a1 where "a1 = (if xs = [] then a
                   else escrever a (ult (-1) xs) ((the (ler a (ult (-1) xs)))\<lparr>next := c\<rparr>))"
  define a2 where "a2 = (if ys = [] then a1
                   else escrever a1 (pri (-1) ys) ((the (ler a1 (pri (-1) ys)))\<lparr>prev := c\<rparr>))"
  define a3 where "a3 = escrever a2 c \<lparr>next = pri (-1) ys, prev = ult (-1) xs, reg = d\<rparr>"
  define a' where "a' = a3\<lparr>cab := (cab a)\<lparr>first := pri c xs, last_cab := ult c ys,
                            free := next (the (ler a c)), quant := quant (cab a) + 1\<rparr>\<rparr>"
  have E: "encaixa a (cab a) novo (chave d) =
         Some (Some (\<lparr>next = pri (-1) ys, prev = ult (-1) xs, reg = reg novo\<rparr>, a2,
                     (cab a)\<lparr>first := pri c xs, last_cab := ult c ys\<rparr>))"
    by (rule encaixa_inv [OF I' _ _ _ _ a1_def a2_def])
       (simp_all add: xs_def ys_def novo_def)
  have "representa a' (xs @ (c, d) # ys) fs"
    by (rule inv_insere [OF I' a1_def a2_def a3_def]) (simp_all add: a'_def)
  moreover have "inserirOrdenado_livre a d = Some (Feito, a')"
    using fc cpos novo0 E
    by (simp add: inserirOrdenado_livre_def Let_def a'_def a3_def novo_def [symmetric])
       (simp add: novo_def)
  ultimately show ?thesis
    using pesquisa_inv_ausente [OF I k] by (simp add: inserirOrdenado_def xs_def ys_def)
qed

lemma desliga_inv:
  assumes I: "representa a (xs @ x # ys) fs"
  shows "\<exists>a'. desliga a (fst x) (the (ler a (fst x))) = (Feito, a') \<and> representa a' (xs @ ys) (fst x # fs)"
proof -
  from I have X: "ativa (ler a) (-1) (first (cab a)) xs (fst x)"
    and Y0: "ativa (ler a) (ult (-1) xs) (fst x) (x # ys) (-1)"
    and D: "distinct (map fst (xs @ x # ys))"
    by (auto simp: representa_def ativa_append)
  from Y0 obtain lx where lx: "ler a (fst x) = Some lx" "prev lx = ult (-1) xs"
    and Y': "ativa (ler a) (fst x) (next lx) ys (-1)"
    by (auto split: option.splits)
  from Y' have nx: "next lx = pri (-1) ys"
    by (rule ativa_pri)
  have R: "\<And>z. z \<in> set (xs @ x # ys) \<Longrightarrow> \<exists>l. ler a (fst z) = Some l"
    using inv_ativa_le [OF I] by blast
  have N: "\<And>z. z \<in> set (xs @ x # ys) \<Longrightarrow> fst z \<noteq> -1"
    using inv_ativa_pos [OF I] by force
  define a1 where "a1 = (if xs = [] then a
                   else escrever a (ult (-1) xs)
                          ((the (ler a (ult (-1) xs)))\<lparr>next := pri (-1) ys\<rparr>))"
  define a2 where "a2 = (if ys = [] then a1
                   else escrever a1 (pri (-1) ys)
                          ((the (ler a1 (pri (-1) ys)))\<lparr>prev := ult (-1) xs\<rparr>))"
  define l' where "l' = lx\<lparr>next := free (cab a), prev := -1,
                reg := \<lparr>chave = -1, nome = strcpy (nome (reg lx)) ''[LIVRE]''\<rparr>\<rparr>"
  define a3 where "a3 = escrever a2 (fst x) l'"
  define c1 where "c1 = (if xs = [] then (cab a)\<lparr>first := pri (-1) ys\<rparr> else cab a)"
  define c2 where "c2 = (if ys = [] then c1\<lparr>last_cab := ult (-1) xs\<rparr> else c1)"
  define a' where "a' = a3\<lparr>cab := (cab a)\<lparr>first := pri (-1) (xs @ ys),
                  last_cab := ult (-1) (xs @ ys), free := fst x, quant := quant (cab a) - 1\<rparr>\<rparr>"
  have d1: "desliga_anterior a (cab a) lx = Some (a1, c1)"
  proof (cases xs rule: rev_cases)
    case Nil
    then show ?thesis by (simp add: desliga_anterior_def lx nx a1_def c1_def)
  next
    case (snoc xs' t)
    with R [of t] N [of t] show ?thesis
      by (auto simp: desliga_anterior_def lx nx a1_def c1_def)
  qed
  have d2: "desliga_proximo a1 c1 lx = Some (a2, c2)"
  proof (cases ys)
    case Nil
    then show ?thesis by (simp add: desliga_proximo_def lx nx a2_def c2_def)
  next
    case (Cons u ys')
    from R [of u] Cons obtain lu where lu: "ler a (fst u) = Some lu" by auto
    have "ler a1 (fst u) \<noteq> None"
    proof (cases xs rule: rev_cases)
      case Nil
      with lu show ?thesis by (simp add: a1_def)
    next
      case (snoc xs' t)
      with R [of t] lu show ?thesis
        by (auto simp: a1_def ler_escrever)
    qed
    with Cons N [of u] show ?thesis
      by (auto simp: desliga_proximo_def lx nx a2_def c2_def)
  qed
  have "representa a' (xs @ ys) (fst x # fs)"
    by (rule inv_retira [OF I a1_def a2_def a3_def]) (simp_all add: a'_def l'_def)
  moreover have "libera a2 c2 (fst x) lx = a'"
  proof -
    have H: "first (cab a) = pri (-1) (xs @ x # ys)" "last_cab (cab a) = ult (-1) (xs @ x # ys)"
      "quant (cab a) = int (length (xs @ x # ys))"
      using I inv_first [OF I] by (auto simp: representa_def)
    show ?thesis
      using H
      by (cases xs; cases ys)
         (simp_all add: libera_def Let_def c1_def c2_def a'_def a3_def l'_def ult_append)
  qed
  ultimately show ?thesis
    using d1 d2 lx by (simp add: desliga_def)
qed

lemma remover_inv_ausente:
  assumes I: "representa a as fs" and k: "k \<notin> set (map (chave \<circ> snd) as)"
  shows "remover a k = Some (ChaveAusente, a)"
proof -
  from k have "dropWhile (\<lambda>x. chave (snd x) \<noteq> k) as = []"
    by (induction as) auto
  with I remover_laco_ativa [of a "-1" "first (cab a)" as k] show ?thesis
    by (simp add: remover_def representa_def)
qed

lemma remover_inv_feito:
  assumes I: "representa a as fs" and d: "dropWhile (\<lambda>x. chave (snd x) \<noteq> k) as = x # ys"
  shows "\<exists>a'. remover a k = Some (Feito, a') \<and>
              representa a' (takeWhile (\<lambda>x. chave (snd x) \<noteq> k) as @ ys) (fst x # fs)"
proof -
  have as: "as = takeWhile (\<lambda>x. chave (snd x) \<noteq> k) as @ x # ys"
    using takeWhile_dropWhile_id [of "\<lambda>x. chave (snd x) \<noteq> k" as] d by simp
  from I have "representa a (takeWhile (\<lambda>x. chave (snd x) \<noteq> k) as @ x # ys) fs"
    using as by simp
  from desliga_inv [OF this] obtain a' where
    "desliga a (fst x) (the (ler a (fst x))) = (Feito, a')"
    "representa a' (takeWhile (\<lambda>x. chave (snd x) \<noteq> k) as @ ys) (fst x # fs)"
    by blast
  with I d remover_laco_ativa [of a "-1" "first (cab a)" as k] show ?thesis
    by (simp add: remover_def representa_def)
qed

lemma dropWhile_chave_Nil:
  "dropWhile (\<lambda>x. chave (snd x) \<noteq> k) as = [] \<longleftrightarrow> k \<notin> set (map (chave \<circ> snd) as)"
  by (induction as) auto

text \<open>One call: it returns, it does not fail on a read, and the file it leaves
  represents the lists that \<open>abs_executa\<close> computes.\<close>

lemma executa_inv:
  assumes I: "representa a as fs"
  shows "\<exists>r a'. executa a opr = Some (r, a') \<and> r \<noteq> FalhaES \<and>
                representa a' (fst (abs_executa (as, fs) opr)) (snd (abs_executa (as, fs) opr))"
proof (cases opr)
  case (Inserir d)
  show ?thesis
  proof (cases "chave d \<in> set (map (chave \<circ> snd) as)")
    case True
    with I Inserir inserir_inv_existente [OF I True] show ?thesis by simp
  next
    case False
    note ausente = this
    show ?thesis
    proof (cases fs)
      case Nil
      with I Inserir ausente inserir_inv_cheio [of a as d] show ?thesis by simp
    next
      case (Cons c fs')
      with I Inserir ausente inserir_inv_feito [of a as c fs' d] show ?thesis by auto
    qed
  qed
next
  case (InserirOrdenado d)
  show ?thesis
  proof (cases "chave d \<in> set (map (chave \<circ> snd) as)")
    case True
    with I InserirOrdenado inserirOrdenado_inv_existente [OF I True] show ?thesis by simp
  next
    case False
    note ausente = this
    show ?thesis
    proof (cases fs)
      case Nil
      with I InserirOrdenado ausente inserirOrdenado_inv_cheio [of a as d] show ?thesis by simp
    next
      case (Cons c fs')
      with I InserirOrdenado ausente inserirOrdenado_inv_feito [of a as c fs' d] show ?thesis
        by auto
    qed
  qed
next
  case (Remover k)
  show ?thesis
  proof (cases "dropWhile (\<lambda>x. chave (snd x) \<noteq> k) as")
    case Nil
    then have "abs_executa (as, fs) (Remover k) = (as, fs)"
      by (simp add: Nil)
    moreover have "k \<notin> set (map (chave \<circ> snd) as)"
      using Nil dropWhile_chave_Nil [of k as] by blast
    ultimately show ?thesis
      using I Remover remover_inv_ausente [of a as fs k] by simp
  next
    case (Cons x ys)
    with I Remover remover_inv_feito [OF I Cons] show ?thesis by auto
  qed
qed

lemma roda_inv:
  "representa a as fs \<Longrightarrow>
   \<exists>a'. roda a oprs = Some a' \<and>
        representa a' (fst (abs_roda (as, fs) oprs)) (snd (abs_roda (as, fs) oprs))"
proof (induction oprs arbitrary: a as fs)
  case Nil
  then show ?case by simp
next
  case (Cons opr oprs)
  from executa_inv [OF Cons.prems, of opr] obtain r a1 where
    e: "executa a opr = Some (r, a1)"
    and i: "representa a1 (fst (abs_executa (as, fs) opr)) (snd (abs_executa (as, fs) opr))"
    by blast
  from Cons.IH [OF i] e show ?case by simp
qed

lemma ler_inicializar:
  "1 \<le> i \<Longrightarrow> i \<le> n \<Longrightarrow>
   ler (inicializar n g) i =
     Some \<lparr>next = (if i = n then -1 else i + 1), prev = -1, reg = \<lparr>chave = -1, nome = g\<rparr>\<rparr>"
  by (simp add: ler_def inicializar_def)

lemma livres_inicializar:
  "1 \<le> i \<Longrightarrow> i \<le> n \<Longrightarrow> livres (ler (inicializar n g)) i [i..n]"
proof (induction "nat (n - i)" arbitrary: i)
  case 0
  then have "i = n" by simp
  with 0 show ?case by (simp add: ler_inicializar)
next
  case (Suc k)
  then have "i < n" and "k = nat (n - (i + 1))" by simp_all
  with Suc.prems Suc.hyps(1) [of "i + 1"] have "livres (ler (inicializar n g)) (i + 1) [i + 1..n]"
    by simp
  with \<open>i < n\<close> Suc.prems show ?case
    by (subst upto_rec1) (simp_all add: ler_inicializar)
qed

lemma inicializar_inv: "1 \<le> n \<Longrightarrow> representa (inicializar n g) [] [1..n]"
  using livres_inicializar [of 1 n g]
  by (simp add: representa_def) (simp add: inicializar_def)

lemma executa_sem_slots:
  "n \<le> 0 \<Longrightarrow> \<exists>r. executa (inicializar n g) opr = Some (r, inicializar n g)"
  by (cases opr)
     (simp_all add: inicializar_def inserir_def inserirOrdenado_def pesquisa_def
        pesquisa_laco.simps inserir_livre_def inserirOrdenado_livre_def ler_def
        remover_def remover_laco.simps)

lemma roda_sem_slots: "n \<le> 0 \<Longrightarrow> roda (inicializar n g) oprs = Some (inicializar n g)"
proof (induction oprs)
  case Nil
  then show ?case by simp
next
  case (Cons opr oprs)
  with executa_sem_slots [of n g opr] show ?case by auto
qed

section \<open>What the walks see on a represented file\<close>

lemma segue_next_ativa:
  "ativa (ler a) p c xs (-1) \<Longrightarrow> length xs \<le> k \<Longrightarrow>
   segue_next a k c = map (\<lambda>x. (fst x, the (ler a (fst x)))) xs"
proof (induction xs arbitrary: p c k)
  case Nil
  then show ?case by (cases k) simp_all
next
  case (Cons x xs)
  then obtain l where l: "c = fst x" "ler a (fst x) = Some l"
      "ativa (ler a) (fst x) (next l) xs (-1)"
    by (auto split: option.splits)
  from l(2) have "fst x \<noteq> -1" by (auto dest: ler_Some_range)
  moreover from Cons.prems obtain k' where "k = Suc k'" "length xs \<le> k'"
    by (cases k) auto
  ultimately show ?case
    using l Cons.IH [OF l(3), of k'] by simp
qed

lemma segue_next_livres:
  "livres (ler a) c fs \<Longrightarrow> length fs \<le> k \<Longrightarrow> map fst (segue_next a k c) = fs"
proof (induction fs arbitrary: c k)
  case Nil
  then show ?case by (cases k) simp_all
next
  case (Cons x fs)
  then obtain l where l: "c = x" "ler a x = Some l" "livres (ler a) (next l) fs"
    by (auto split: option.splits)
  from l(2) have "x \<noteq> -1" by (auto dest: ler_Some_range)
  moreover from Cons.prems obtain k' where "k = Suc k'" "length fs \<le> k'"
    by (cases k) auto
  ultimately show ?case
    using l Cons.IH [OF l(3), of k'] by simp
qed

lemma segue_prev_ativa:
  "ativa (ler a) p c xs e \<Longrightarrow> length xs \<le> k \<Longrightarrow>
   map fst (segue_prev a k (ult (-1) xs)) = rev (map fst xs) \<or> p \<noteq> -1"
proof (induction xs arbitrary: e k rule: rev_induct)
  case Nil
  then show ?case by (cases k) simp_all
next
  case (snoc x xs)
  show ?case
  proof (cases "p = -1")
    case False
    then show ?thesis by simp
  next
    case True
    from snoc.prems obtain l where l: "ler a (fst x) = Some l" "prev l = ult p xs"
      and X: "ativa (ler a) p c xs (fst x)"
      by (auto simp: ativa_append split: option.splits)
    from l(1) have "fst x \<noteq> -1" by (auto dest: ler_Some_range)
    moreover from snoc.prems obtain k' where "k = Suc k'" "length xs \<le> k'"
      by (cases k) auto
    ultimately show ?thesis
      using l True snoc.IH [OF X, of k'] by simp
  qed
qed

lemma representa_comprimentos:
  assumes "representa a as fs"
  shows "length as \<le> length (nos a)" "length fs \<le> length (nos a)"
    "length as + length fs = length (nos a)"
proof -
  from assms have d: "distinct (map fst as @ fs)"
    and s: "set (map fst as @ fs) = {1..int (length (nos a))}"
    by (auto simp: representa_def)
  from d have "length (map fst as @ fs) = card (set (map fst as @ fs))"
    by (rule distinct_card [symmetric])
  with s show "length as + length fs = length (nos a)" by simp
  then show "length as \<le> length (nos a)" "length fs \<le> length (nos a)" by simp_all
qed

lemma representa_cadeia_ativa:
  "representa a as fs \<Longrightarrow> cadeia_ativa a = map (\<lambda>x. (fst x, the (ler a (fst x)))) as"
  unfolding cadeia_ativa_def
  using representa_comprimentos(1) [of a as fs]
  by (intro segue_next_ativa [where p = "-1"]) (simp_all add: representa_def)

lemma representa_cadeia_ativa_fst: "representa a as fs \<Longrightarrow> map fst (cadeia_ativa a) = map fst as"
  by (simp add: representa_cadeia_ativa comp_def)

lemma representa_cadeia_ativa_reg:
  assumes "representa a as fs"
  shows "map (reg \<circ> snd) (cadeia_ativa a) = map snd as"
proof -
  have "\<And>x. x \<in> set as \<Longrightarrow> reg (the (ler a (fst x))) = snd x"
    using inv_ativa_le [OF assms] by force
  then show ?thesis
    by (simp add: representa_cadeia_ativa [OF assms])
qed

lemma representa_cadeia_livre: "representa a as fs \<Longrightarrow> map fst (cadeia_livre a) = fs"
  unfolding cadeia_livre_def
  using representa_comprimentos(2) [of a as fs]
  by (intro segue_next_livres) (simp_all add: representa_def)

lemma representa_cadeia_reversa:
  assumes "representa a as fs"
  shows "map fst (cadeia_reversa a) = rev (map fst as)"
  using segue_prev_ativa [of a "-1" "first (cab a)" as "-1" "length (nos a)"] assms
    representa_comprimentos(1) [OF assms]
  by (simp add: cadeia_reversa_def representa_def)

lemma representa_extremos:
  assumes "representa a as fs" and "as \<noteq> []"
  shows "prev (the (ler a (fst (hd as)))) = -1" "next (the (ler a (fst (last as)))) = -1"
proof -
  from assms show "prev (the (ler a (fst (hd as)))) = -1"
    by (cases as) (auto simp: representa_def split: option.splits)
  from assms(2) obtain xs t where "as = xs @ [t]"
    by (cases as rule: rev_cases) auto
  with assms(1) show "next (the (ler a (fst (last as)))) = -1"
    by (auto simp: representa_def ativa_append split: option.splits)
qed

text \<open>Every state the program can reach: with at least one slot it represents the lists
  computed by \<open>abs_roda\<close>; with no slot it never changes.\<close>

lemma roda_alcanca:
  assumes "roda (inicializar n g) oprs = Some a"
  shows "(1 \<le> n \<and> representa a (fst (abs_roda ([], [1..n]) oprs)) (snd (abs_roda ([], [1..n]) oprs)))
         \<or> (n \<le> 0 \<and> a = inicializar n g)"
proof (cases "1 \<le> n")
  case True
  from roda_inv [OF inicializar_inv [OF True], of g oprs] assms True show ?thesis by auto
next
  case False
  then have "n \<le> 0" by simp
  with roda_sem_slots [OF this, of g oprs] assms show ?thesis by simp
qed

lemma roda_retorna: "\<exists>a. roda (inicializar n g) oprs = Some a"
proof (cases "1 \<le> n")
  case True
  from roda_inv [OF inicializar_inv [OF True], of g oprs] show ?thesis by auto
next
  case False
  then have "n \<le> 0" by simp
  from roda_sem_slots [OF this, of g oprs] show ?thesis by simp
qed

lemma cadeias_sem_slots:
  "n \<le> 0 \<Longrightarrow> cadeia_ativa (inicializar n g) = [] \<and> cadeia_livre (inicializar n g) = [] \<and>
     cadeia_reversa (inicializar n g) = [] \<and> nos (inicializar n g) = []"
  by (simp add: cadeia_ativa_def cadeia_livre_def cadeia_reversa_def inicializar_def)

section \<open>Facts used by the properties\<close>

text \<open>The capacity never changes and the count stays between 0 and the capacity, so the
  arithmetic of the program stays within the range of a C \<^verbatim>\<open>int\<close>.\<close>

lemma abs_executa_cursores:
  "set (map fst (fst (abs_executa (as, fs) opr))) \<union> set (snd (abs_executa (as, fs) opr)) =
   set (map fst as) \<union> set fs"
proof (cases opr)
  case (Inserir d)
  then show ?thesis by (auto split: list.splits)
next
  case (InserirOrdenado d)
  have "set as = set (takeWhile (\<lambda>x. chave (snd x) \<le> chave d) as) \<union>
                 set (dropWhile (\<lambda>x. chave (snd x) \<le> chave d) as)"
    using takeWhile_dropWhile_id [of "\<lambda>x. chave (snd x) \<le> chave d" as]
    by (metis set_append)
  then have "fst ` set as = fst ` set (takeWhile (\<lambda>x. chave (snd x) \<le> chave d) as) \<union>
                 fst ` set (dropWhile (\<lambda>x. chave (snd x) \<le> chave d) as)"
    by (metis image_Un)
  with InserirOrdenado show ?thesis by (cases fs) auto
next
  case (Remover k)
  show ?thesis
  proof (cases "dropWhile (\<lambda>x. chave (snd x) \<noteq> k) as")
    case Nil
    with Remover show ?thesis by (simp add: Nil)
  next
    case (Cons x ys)
    have "as = takeWhile (\<lambda>x. chave (snd x) \<noteq> k) as @ x # ys"
      using takeWhile_dropWhile_id [of "\<lambda>x. chave (snd x) \<noteq> k" as] Cons by simp
    then have "set as = set (takeWhile (\<lambda>x. chave (snd x) \<noteq> k) as) \<union> insert x (set ys)"
      by (metis list.simps(15) set_append)
    then have "fst ` set as =
        fst ` set (takeWhile (\<lambda>x. chave (snd x) \<noteq> k) as) \<union> insert (fst x) (fst ` set ys)"
      by (metis image_Un image_insert)
    with Remover show ?thesis by (auto simp: Cons)
  qed
qed

lemma abs_roda_cursores:
  "set (map fst (fst (abs_roda (as, fs) oprs))) \<union> set (snd (abs_roda (as, fs) oprs)) =
   set (map fst as) \<union> set fs"
proof (induction oprs arbitrary: as fs)
  case Nil
  then show ?case by simp
next
  case (Cons opr oprs)
  obtain as' fs' where e: "abs_executa (as, fs) opr = (as', fs')"
    by (cases "abs_executa (as, fs) opr")
  with abs_executa_cursores [of as fs opr] Cons.IH [of as' fs'] show ?case by simp
qed

lemma roda_limites:
  assumes "roda (inicializar n lixo) oprs = Some a"
  shows "tam (cab a) = n \<and> 0 \<le> quant (cab a) \<and> quant (cab a) \<le> max 0 n"
proof -
  from roda_alcanca [OF assms] show ?thesis
  proof (elim disjE conjE)
    define as where "as = fst (abs_roda ([], [1..n]) oprs)"
    define fs where "fs = snd (abs_roda ([], [1..n]) oprs)"
    assume n: "1 \<le> n"
      and "representa a (fst (abs_roda ([], [1..n]) oprs)) (snd (abs_roda ([], [1..n]) oprs))"
    then have R: "representa a as fs"
      by (simp add: as_def fs_def)
    have "set (map fst as) \<union> set fs = {1..n}"
      unfolding as_def fs_def using abs_roda_cursores [of "[]" "[1..n]" oprs] by simp
    with R have "{1..tam (cab a)} = {1..n}"
      by (simp add: representa_def)
    with n have t: "tam (cab a) = n"
      by simp
    have "quant (cab a) = int (length as)" "int (length (nos a)) = tam (cab a)"
      using R by (simp_all add: representa_def)
    with t representa_comprimentos(1) [OF R] show ?thesis by simp
  next
    assume "n \<le> 0" "a = inicializar n lixo"
    then show ?thesis by (simp add: inicializar_def)
  qed
qed

lemma inv_quant: "representa a as fs \<Longrightarrow> quant (cab a) = int (length as)"
  by (simp add: representa_def)

lemma roda_exemplo: "roda (inicializar 3 ''??'') oprs_exemplo = Some arq_exemplo"
  unfolding oprs_exemplo_def arq_exemplo_def by code_simp

lemma cadeias_exemplo:
  "cadeia_ativa arq_exemplo =
     [(1, \<lparr>next = 2, prev = -1, reg = \<lparr>chave = 2, nome = ''B''\<rparr>\<rparr>),
      (2, \<lparr>next = -1, prev = 1, reg = \<lparr>chave = 5, nome = ''A''\<rparr>\<rparr>)]"
  "map fst (cadeia_reversa arq_exemplo) = [2, 1]"
  "map fst (cadeia_livre arq_exemplo) = [3]"
  "ler arq_exemplo 1 = Some \<lparr>next = 2, prev = -1, reg = \<lparr>chave = 2, nome = ''B''\<rparr>\<rparr>"
  unfolding arq_exemplo_def by code_simp+

lemma crescente_insere:
  assumes S: "sorted_wrt (\<lambda>x y. chave (snd x) < chave (snd y)) as"
    and k: "\<forall>x\<in>set as. chave (snd x) \<noteq> chave d"
  shows "sorted_wrt (\<lambda>x y. chave (snd x) < chave (snd y))
     (takeWhile (\<lambda>x. chave (snd x) \<le> chave d) as @
        (c, d) # dropWhile (\<lambda>x. chave (snd x) \<le> chave d) as)"
proof -
  define xs where "xs = takeWhile (\<lambda>x. chave (snd x) \<le> chave d) as"
  define ys where "ys = dropWhile (\<lambda>x. chave (snd x) \<le> chave d) as"
  have as: "as = xs @ ys"
    by (simp add: xs_def ys_def)
  from S have S': "sorted_wrt (\<lambda>x y. chave (snd x) < chave (snd y)) xs"
    "sorted_wrt (\<lambda>x y. chave (snd x) < chave (snd y)) ys"
    "\<forall>x\<in>set xs. \<forall>y\<in>set ys. chave (snd x) < chave (snd y)"
    unfolding as by (simp_all add: sorted_wrt_append)
  have X: "\<forall>x\<in>set xs. chave (snd x) < chave d"
  proof
    fix x assume "x \<in> set xs"
    then have "x \<in> set as" "chave (snd x) \<le> chave d"
      unfolding xs_def by (auto dest: set_takeWhileD)
    with k show "chave (snd x) < chave d" by force
  qed
  have Y: "\<forall>y\<in>set ys. chave d < chave (snd y)"
  proof (cases ys)
    case Nil
    then show ?thesis by simp
  next
    case (Cons y0 ys')
    then have "\<not> chave (snd y0) \<le> chave d"
      unfolding ys_def by (simp add: dropWhile_eq_Cons_conv)
    with S'(2) Cons show ?thesis by fastforce
  qed
  from S' X Y have "sorted_wrt (\<lambda>x y. chave (snd x) < chave (snd y)) (xs @ (c, d) # ys)"
    by (simp add: sorted_wrt_append)
  then show ?thesis by (simp add: xs_def ys_def)
qed

lemma crescente_retira:
  assumes "sorted_wrt R as" and "dropWhile Q as = x # ys"
  shows "sorted_wrt R (takeWhile Q as @ ys)"
proof -
  have "as = takeWhile Q as @ x # ys"
    using takeWhile_dropWhile_id [of Q as] assms(2) by simp
  with assms(1) have "sorted_wrt R (takeWhile Q as @ x # ys)" by simp
  then show ?thesis by (auto simp: sorted_wrt_append)
qed

lemma abs_executa_crescente:
  assumes "sorted_wrt (\<lambda>x y. chave (snd x) < chave (snd y)) as" and "so_ordenado opr"
  shows "sorted_wrt (\<lambda>x y. chave (snd x) < chave (snd y)) (fst (abs_executa (as, fs) opr))"
proof (cases opr)
  case (Inserir d)
  with assms show ?thesis by simp
next
  case (InserirOrdenado d)
  show ?thesis
  proof (cases "chave d \<in> set (map (chave \<circ> snd) as)")
    case True
    with assms InserirOrdenado show ?thesis by simp
  next
    case False
    then have "\<forall>x\<in>set as. chave (snd x) \<noteq> chave d" by force
    from crescente_insere [OF assms(1) this] assms InserirOrdenado False show ?thesis
      by (cases fs) simp_all
  qed
next
  case (Remover k)
  with assms crescente_retira [of _ as "\<lambda>x. chave (snd x) \<noteq> k"] show ?thesis
    by (auto split: list.splits)
qed

lemma abs_roda_crescente:
  "sorted_wrt (\<lambda>x y. chave (snd x) < chave (snd y)) as \<Longrightarrow> list_all so_ordenado oprs \<Longrightarrow>
   sorted_wrt (\<lambda>x y. chave (snd x) < chave (snd y)) (fst (abs_roda (as, fs) oprs))"
proof (induction oprs arbitrary: as fs)
  case Nil
  then show ?case by simp
next
  case (Cons opr oprs)
  obtain as' fs' where e: "abs_executa (as, fs) opr = (as', fs')"
    by (cases "abs_executa (as, fs) opr")
  with abs_executa_crescente [of as opr fs] Cons.prems
  have "sorted_wrt (\<lambda>x y. chave (snd x) < chave (snd y)) as'" by simp
  from Cons.IH [OF this] Cons.prems(2) e show ?case by simp
qed

lemma abs_executa_valida:
  assumes "\<forall>x\<in>set as. chave (snd x) \<noteq> -1" and "chave_valida opr"
  shows "\<forall>x\<in>set (fst (abs_executa (as, fs) opr)). chave (snd x) \<noteq> -1"
proof (cases opr)
  case (Inserir d)
  with assms show ?thesis by (auto split: list.splits)
next
  case (InserirOrdenado d)
  with assms show ?thesis
    by (auto split: list.splits dest: set_takeWhileD set_dropWhileD)
next
  case (Remover k)
  show ?thesis
  proof (cases "dropWhile (\<lambda>x. chave (snd x) \<noteq> k) as")
    case Nil
    with assms Remover show ?thesis by (simp add: Nil)
  next
    case (Cons x ys)
    have "set ys \<subseteq> set as"
      using set_dropWhileD [of _ "\<lambda>x. chave (snd x) \<noteq> k" as] Cons by auto
    with assms Remover Cons show ?thesis
      by (auto simp: Cons dest: set_takeWhileD)
  qed
qed

lemma abs_roda_valida:
  "\<forall>x\<in>set as. chave (snd x) \<noteq> -1 \<Longrightarrow> list_all chave_valida oprs \<Longrightarrow>
   \<forall>x\<in>set (fst (abs_roda (as, fs) oprs)). chave (snd x) \<noteq> -1"
proof (induction oprs arbitrary: as fs)
  case Nil
  then show ?case by simp
next
  case (Cons opr oprs)
  obtain as' fs' where e: "abs_executa (as, fs) opr = (as', fs')"
    by (cases "abs_executa (as, fs) opr")
  with abs_executa_valida [of as opr fs] Cons.prems
  have "\<forall>x\<in>set as'. chave (snd x) \<noteq> -1" by simp
  from Cons.IH [OF this] Cons.prems(2) e show ?case by simp
qed

lemma pesquisa_lista_vazia: "first (cab a) = -1 \<Longrightarrow> pesquisa a k = Some NaoAchou"
  by (simp add: pesquisa_def pesquisa_laco.simps)

lemma inserir_livre_cheio: "inserir_livre a d = (ArquivoCheio, a') \<Longrightarrow> a' = a"
  by (auto simp: inserir_livre_def Let_def split: if_splits option.splits)

lemma inserir_livre_existente: "inserir_livre a d \<noteq> (ChaveExistente, a')"
  by (auto simp: inserir_livre_def Let_def split: if_splits option.splits)

lemma inserirOrdenado_livre_cheio: "inserirOrdenado_livre a d = Some (ArquivoCheio, a') \<Longrightarrow> a' = a"
  by (auto simp: inserirOrdenado_livre_def Let_def split: if_splits option.splits)

lemma inserirOrdenado_livre_existente: "inserirOrdenado_livre a d \<noteq> Some (ChaveExistente, a')"
  by (auto simp: inserirOrdenado_livre_def Let_def split: if_splits option.splits)

lemma inserir_aborta:
  "inserir a d = Some (r, a') \<Longrightarrow> r = ChaveExistente \<or> r = ArquivoCheio \<Longrightarrow> a' = a"
  by (auto simp: inserir_def inserir_livre_existente
      split: option.splits busca.splits dest: inserir_livre_cheio)

lemma inserirOrdenado_aborta:
  "inserirOrdenado a d = Some (r, a') \<Longrightarrow> r = ChaveExistente \<or> r = ArquivoCheio \<Longrightarrow> a' = a"
  by (auto simp: inserirOrdenado_def inserirOrdenado_livre_existente
      split: option.splits busca.splits dest: inserirOrdenado_livre_cheio)

lemma desliga_desfecho: "fst (desliga a atual l) \<noteq> ChaveAusente"
  by (simp add: desliga_def split: option.splits prod.splits)

lemma remover_laco_ausente:
  assumes "remover_laco a chv atual = Some y"
  shows "fst y = ChaveAusente \<longrightarrow> snd y = a"
proof (rule remover_laco.raw_induct
    [where P = "\<lambda>a chv atual y. fst y = ChaveAusente \<longrightarrow> snd y = a", OF _ assms])
  fix f a chv atual y
  assume IH: "\<And>a chv atual y. f a chv atual = Some y \<Longrightarrow> fst y = ChaveAusente \<longrightarrow> snd y = a"
    and body: "(if atual = -1 then Some (ChaveAusente, a)
                else case ler a atual of
                       None \<Rightarrow> Some (FalhaES, a)
                     | Some l \<Rightarrow>
                         if chave (reg l) = chv then Some (desliga a atual l)
                         else f a chv (next l)) = Some y"
  from body IH show "fst y = ChaveAusente \<longrightarrow> snd y = a"
    using desliga_desfecho by (auto split: if_splits option.splits)
qed

lemma remover_aborta: "remover a chv = Some (ChaveAusente, a') \<Longrightarrow> a' = a"
  using remover_laco_ausente [of a chv "first (cab a)" "(ChaveAusente, a')"]
  by (simp add: remover_def)

section \<open>Properties of the specification\<close>

text \<open>
  C1. In every state reached from \<^verbatim>\<open>inicializar\<close> by any sequence of calls of
  \<^verbatim>\<open>inserir\<close>, \<^verbatim>\<open>inserirOrdenado\<close> and \<^verbatim>\<open>remover\<close>, the walk from \<open>first\<close> along
  \<open>next\<close> visits exactly \<open>quant\<close> slots, all different; the last slot visited is
  \<open>last\<close> and its \<open>next\<close> is -1; the walk from \<open>last\<close> along \<open>prev\<close> visits the same
  slots in the opposite order, so it ends at \<open>first\<close>, whose \<open>prev\<close> is -1. When the
  list is empty both \<open>first\<close> and \<open>last\<close> are -1.
\<close>

theorem C1_cadeia_ativa:
  assumes "roda (inicializar n lixo) oprs = Some a"
  shows "int (length (cadeia_ativa a)) = quant (cab a) \<and>
         distinct (map fst (cadeia_ativa a)) \<and>
         map fst (cadeia_reversa a) = rev (map fst (cadeia_ativa a)) \<and>
         (if cadeia_ativa a = [] then first (cab a) = -1 \<and> last_cab (cab a) = -1
          else fst (hd (cadeia_ativa a)) = first (cab a) \<and>
               prev (snd (hd (cadeia_ativa a))) = -1 \<and>
               fst (last (cadeia_ativa a)) = last_cab (cab a) \<and>
               next (snd (last (cadeia_ativa a))) = -1)"
proof -
  from roda_alcanca [OF assms] show ?thesis
  proof (elim disjE conjE)
    define as where "as = fst (abs_roda ([], [1..n]) oprs)"
    define fs where "fs = snd (abs_roda ([], [1..n]) oprs)"
    assume "representa a (fst (abs_roda ([], [1..n]) oprs)) (snd (abs_roda ([], [1..n]) oprs))"
    then have R: "representa a as fs"
      by (simp add: as_def fs_def)
    note c = representa_cadeia_ativa [OF R]
    have 1: "int (length (cadeia_ativa a)) = quant (cab a)"
      using inv_quant [OF R] by (simp add: c)
    have 2: "distinct (map fst (cadeia_ativa a))"
      using R by (simp add: representa_cadeia_ativa_fst [OF R] representa_def)
    have 3: "map fst (cadeia_reversa a) = rev (map fst (cadeia_ativa a))"
      by (simp add: representa_cadeia_reversa [OF R] representa_cadeia_ativa_fst [OF R])
    show ?thesis
    proof (cases "as = []")
      case True
      with 1 2 3 inv_first_vazia [OF R] inv_last_vazia [OF R] show ?thesis
        by (simp add: c)
    next
      case False
      with representa_extremos [OF R] inv_first [OF R] R
      have "fst (hd as) = first (cab a)" "fst (last as) = last_cab (cab a)"
        "prev (the (ler a (fst (hd as)))) = -1" "next (the (ler a (fst (last as)))) = -1"
        by (simp_all add: representa_def ult_def pri_def split: list.splits)
      with False 1 2 3 show ?thesis
        by (simp add: c hd_map last_map)
    qed
  next
    assume "n \<le> 0" "a = inicializar n lixo"
    with cadeias_sem_slots [of n lixo] show ?thesis
      by (simp add: inicializar_def)
  qed
qed

theorem C1_cadeia_ativa_witness:
  "roda (inicializar 3 ''??'') oprs_exemplo = Some arq_exemplo \<and>
   int (length (cadeia_ativa arq_exemplo)) = quant (cab arq_exemplo) \<and>
   map fst (cadeia_ativa arq_exemplo) = [1, 2] \<and>
   map fst (cadeia_reversa arq_exemplo) = rev (map fst (cadeia_ativa arq_exemplo)) \<and>
   fst (last (cadeia_ativa arq_exemplo)) = last_cab (cab arq_exemplo) \<and>
   next (snd (last (cadeia_ativa arq_exemplo))) = -1"
  using C1_cadeia_ativa [OF roda_exemplo] roda_exemplo cadeias_exemplo(1)
  by simp

text \<open>
  C2. In every state reached from \<^verbatim>\<open>inicializar\<close> by any sequence of calls, no position
  is visited twice by the walks along the active chain and along the free chain (so none
  is on both chains), and the positions visited by the two walks are exactly those from 1
  to the capacity. (With a capacity below 1 the file has no slot and both walks are
  empty.)
\<close>

theorem C2_cursores_em_uma_cadeia:
  assumes "roda (inicializar n lixo) oprs = Some a"
  shows "distinct (map fst (cadeia_ativa a) @ map fst (cadeia_livre a)) \<and>
         set (map fst (cadeia_ativa a)) \<inter> set (map fst (cadeia_livre a)) = {} \<and>
         set (map fst (cadeia_ativa a)) \<union> set (map fst (cadeia_livre a)) = {1..tam (cab a)}"
proof -
  from roda_alcanca [OF assms] show ?thesis
  proof (elim disjE conjE)
    define as where "as = fst (abs_roda ([], [1..n]) oprs)"
    define fs where "fs = snd (abs_roda ([], [1..n]) oprs)"
    assume "representa a (fst (abs_roda ([], [1..n]) oprs)) (snd (abs_roda ([], [1..n]) oprs))"
    then have R: "representa a as fs"
      by (simp add: as_def fs_def)
    from R show ?thesis
      by (simp add: representa_cadeia_ativa_fst [OF R] representa_cadeia_livre [OF R]
            representa_def)
  next
    assume "n \<le> 0" "a = inicializar n lixo"
    with cadeias_sem_slots [of n lixo] show ?thesis
      by (simp add: inicializar_def)
  qed
qed

theorem C2_cursores_em_uma_cadeia_witness:
  "roda (inicializar 3 ''??'') oprs_exemplo = Some arq_exemplo \<and>
   map fst (cadeia_ativa arq_exemplo) = [1, 2] \<and> map fst (cadeia_livre arq_exemplo) = [3] \<and>
   set (map fst (cadeia_ativa arq_exemplo)) \<inter> set (map fst (cadeia_livre arq_exemplo)) = {} \<and>
   set (map fst (cadeia_ativa arq_exemplo)) \<union> set (map fst (cadeia_livre arq_exemplo)) =
     {1..tam (cab arq_exemplo)}"
  using C2_cursores_em_uma_cadeia [OF roda_exemplo] roda_exemplo cadeias_exemplo(1,3)
  by simp

text \<open>
  C3. In every state reached from \<^verbatim>\<open>inicializar\<close> by a sequence of calls of
  \<^verbatim>\<open>inserirOrdenado\<close> and \<^verbatim>\<open>remover\<close> only, the keys met along the active chain, from
  \<open>first\<close> on, are strictly increasing.
\<close>

theorem C3_chaves_crescentes:
  assumes "list_all so_ordenado oprs" and "roda (inicializar n lixo) oprs = Some a"
  shows "sorted_wrt (<) (map (chave \<circ> reg \<circ> snd) (cadeia_ativa a))"
proof -
  from roda_alcanca [OF assms(2)] show ?thesis
  proof (elim disjE conjE)
    define as where "as = fst (abs_roda ([], [1..n]) oprs)"
    define fs where "fs = snd (abs_roda ([], [1..n]) oprs)"
    assume "representa a (fst (abs_roda ([], [1..n]) oprs)) (snd (abs_roda ([], [1..n]) oprs))"
    then have R: "representa a as fs"
      by (simp add: as_def fs_def)
    have "sorted_wrt (\<lambda>x y. chave (snd x) < chave (snd y)) as"
      unfolding as_def using assms(1) by (intro abs_roda_crescente) simp_all
    then have "sorted_wrt (<) (map chave (map snd as))"
      by (simp add: sorted_wrt_map)
    also have "map snd as = map (reg \<circ> snd) (cadeia_ativa a)"
      by (simp add: representa_cadeia_ativa_reg [OF R])
    finally show ?thesis by (simp add: comp_def)
  next
    assume "n \<le> 0" "a = inicializar n lixo"
    with cadeias_sem_slots [of n lixo] show ?thesis by simp
  qed
qed

theorem C3_chaves_crescentes_witness:
  "list_all so_ordenado oprs_exemplo \<and>
   roda (inicializar 3 ''??'') oprs_exemplo = Some arq_exemplo \<and>
   map (chave \<circ> reg \<circ> snd) (cadeia_ativa arq_exemplo) = [2, 5] \<and>
   sorted_wrt (<) (map (chave \<circ> reg \<circ> snd) (cadeia_ativa arq_exemplo))"
proof -
  have h: "list_all so_ordenado oprs_exemplo"
    by (simp add: oprs_exemplo_def)
  from C3_chaves_crescentes [OF h roda_exemplo] h roda_exemplo cadeias_exemplo(1)
  show ?thesis by simp
qed

text \<open>
  C4, as stated, fails for the capacity 0: \<^verbatim>\<open>inicializar\<close> sets \<open>free\<close> to 1 whatever the
  capacity, so the header of the file just initialised has \<open>quant = tam = 0\<close> and
  \<open>free = 1\<close>.
\<close>

theorem C4_capacidade_zero:
  "roda (inicializar 0 []) [] = Some (inicializar 0 []) \<and>
   quant (cab (inicializar 0 [])) = tam (cab (inicializar 0 [])) \<and>
   free (cab (inicializar 0 [])) \<noteq> -1 \<and>
   \<not> (free (cab (inicializar 0 [])) = -1 \<longleftrightarrow>
        quant (cab (inicializar 0 [])) = tam (cab (inicializar 0 [])))"
  by (simp add: inicializar_def)

text \<open>
  C4, amended. For every capacity other than 0, in every state reached from
  \<^verbatim>\<open>inicializar\<close> by any sequence of calls, \<open>free\<close> is -1 if and only if \<open>quant\<close>
  equals the capacity.
\<close>

theorem C4_free_sse_cheio:
  assumes "n \<noteq> 0" and "roda (inicializar n lixo) oprs = Some a"
  shows "free (cab a) = -1 \<longleftrightarrow> quant (cab a) = tam (cab a)"
proof -
  from roda_alcanca [OF assms(2)] show ?thesis
  proof (elim disjE conjE)
    define as where "as = fst (abs_roda ([], [1..n]) oprs)"
    define fs where "fs = snd (abs_roda ([], [1..n]) oprs)"
    assume "representa a (fst (abs_roda ([], [1..n]) oprs)) (snd (abs_roda ([], [1..n]) oprs))"
    then have R: "representa a as fs"
      by (simp add: as_def fs_def)
    have "int (length as) + int (length fs) = tam (cab a)"
      using representa_comprimentos(3) [OF R] R by (simp add: representa_def)
    with inv_free_vazia [OF R] inv_quant [OF R] show ?thesis
      by auto
  next
    assume "n \<le> 0" "a = inicializar n lixo"
    with assms(1) show ?thesis
      by (simp add: inicializar_def)
  qed
qed

theorem C4_free_sse_cheio_witness:
  "(3::int) \<noteq> 0 \<and> roda (inicializar 3 ''??'') oprs_exemplo = Some arq_exemplo \<and>
   (free (cab arq_exemplo) = -1 \<longleftrightarrow> quant (cab arq_exemplo) = tam (cab arq_exemplo))"
  using C4_free_sse_cheio [OF _ roda_exemplo] roda_exemplo by simp

text \<open>
  C5. When a call of \<^verbatim>\<open>inserir\<close> or \<^verbatim>\<open>inserirOrdenado\<close> ends with "key exists" or "file
  full", or a call of \<^verbatim>\<open>remover\<close> returns false, the file is left as it was, header and
  slots; so the same call made again ends the same way and leaves the same file once
  more, which for \<^verbatim>\<open>remover\<close> is the case of two removals of an absent key. This holds
  for every file, reached from \<^verbatim>\<open>inicializar\<close> or not.
\<close>

theorem C5_erro_nao_altera:
  assumes "executa a opr = Some (r, a')" and "aborta opr r"
  shows "a' = a \<and> executa a' opr = Some (r, a)"
proof -
  from assms have "a' = a"
    by (cases opr) (auto dest: inserir_aborta inserirOrdenado_aborta remover_aborta)
  with assms(1) show ?thesis by simp
qed

theorem C5_erro_nao_altera_witness:
  "executa arq_exemplo (Remover 9) = Some (ChaveAusente, arq_exemplo) \<and>
   aborta (Remover 9) ChaveAusente \<and>
   executa arq_exemplo (Inserir \<lparr>chave = 5, nome = ''Z''\<rparr>) = Some (ChaveExistente, arq_exemplo) \<and>
   aborta (Inserir \<lparr>chave = 5, nome = ''Z''\<rparr>) ChaveExistente \<and>
   executa arq_sentinela (InserirOrdenado \<lparr>chave = 7, nome = ''Z''\<rparr>) =
     Some (ArquivoCheio, arq_sentinela) \<and>
   aborta (InserirOrdenado \<lparr>chave = 7, nome = ''Z''\<rparr>) ArquivoCheio \<and>
   (arq_exemplo = arq_exemplo \<and>
    executa arq_exemplo (Remover 9) = Some (ChaveAusente, arq_exemplo))"
proof -
  have 1: "executa arq_exemplo (Remover 9) = Some (ChaveAusente, arq_exemplo)"
    unfolding arq_exemplo_def by code_simp
  have 2: "executa arq_exemplo (Inserir \<lparr>chave = 5, nome = ''Z''\<rparr>) =
      Some (ChaveExistente, arq_exemplo)"
    unfolding arq_exemplo_def by code_simp
  have 3: "executa arq_sentinela (InserirOrdenado \<lparr>chave = 7, nome = ''Z''\<rparr>) =
     Some (ArquivoCheio, arq_sentinela)"
    unfolding arq_sentinela_def by code_simp
  from C5_erro_nao_altera [OF 1] C5_erro_nao_altera [OF 2] C5_erro_nao_altera [OF 3] 1 2 3
  show ?thesis by simp
qed

text \<open>
  C6. In every state reached from \<^verbatim>\<open>inicializar\<close> by any sequence of calls, if
  \<^verbatim>\<open>pesquisa\<close> does not find the key of a record and the free chain has a slot, then
  \<^verbatim>\<open>inserir\<close> of the record succeeds, and \<^verbatim>\<open>pesquisa\<close> of its key in the resulting file
  returns true with a slot that holds the record, key and \<open>nome\<close> bytes as given.
\<close>

theorem C6_inserir_depois_pesquisa:
  assumes "roda (inicializar n lixo) oprs = Some a"
    and "pesquisa a (chave r) = Some NaoAchou"
    and "cadeia_livre a \<noteq> []"
  shows "\<exists>a' l. inserir a r = Some (Feito, a') \<and> pesquisa a' (chave r) = Some (Achou l) \<and>
                reg l = r"
proof -
  from roda_alcanca [OF assms(1)] show ?thesis
  proof (elim disjE conjE)
    define as where "as = fst (abs_roda ([], [1..n]) oprs)"
    define fs where "fs = snd (abs_roda ([], [1..n]) oprs)"
    assume "representa a (fst (abs_roda ([], [1..n]) oprs)) (snd (abs_roda ([], [1..n]) oprs))"
    then have R: "representa a as fs"
      by (simp add: as_def fs_def)
    from assms(2) have k: "chave r \<notin> set (map (chave \<circ> snd) as)"
      using pesquisa_inv_presente [OF R, of "chave r"] by auto
    from assms(3) representa_cadeia_livre [OF R] obtain c fs' where fs: "fs = c # fs'"
      by (cases fs) auto
    from inserir_inv_feito [OF R [unfolded fs] k] obtain a' where
      a': "inserir a r = Some (Feito, a')" "representa a' (as @ [(c, r)]) fs'"
      by blast
    from k have "find (\<lambda>x. chave (snd x) = chave r) (as @ [(c, r)]) = Some (c, r)"
      by (induction as) auto
    with pesquisa_inv [OF a'(2), of "chave r"]
    have "pesquisa a' (chave r) = Some (Achou (the (ler a' c)))"
      by simp
    moreover from inv_ativa_le [OF a'(2), of "(c, r)"] have "reg (the (ler a' c)) = r"
      by auto
    ultimately show ?thesis
      using a'(1) by blast
  next
    assume "n \<le> 0" "a = inicializar n lixo"
    with cadeias_sem_slots [of n lixo] assms(3) show ?thesis by simp
  qed
qed

theorem C6_inserir_depois_pesquisa_witness:
  "roda (inicializar 3 ''??'') oprs_exemplo = Some arq_exemplo \<and>
   pesquisa arq_exemplo (chave \<lparr>chave = 7, nome = ''D''\<rparr>) = Some NaoAchou \<and>
   cadeia_livre arq_exemplo \<noteq> [] \<and>
   (\<exists>a' l. inserir arq_exemplo \<lparr>chave = 7, nome = ''D''\<rparr> = Some (Feito, a') \<and>
           pesquisa a' (chave \<lparr>chave = 7, nome = ''D''\<rparr>) = Some (Achou l) \<and>
           reg l = \<lparr>chave = 7, nome = ''D''\<rparr>)"
proof -
  have p: "pesquisa arq_exemplo (chave \<lparr>chave = 7, nome = ''D''\<rparr>) = Some NaoAchou"
    unfolding arq_exemplo_def by code_simp
  have f: "cadeia_livre arq_exemplo \<noteq> []"
    using cadeias_exemplo(3) by auto
  from C6_inserir_depois_pesquisa [OF roda_exemplo p f] roda_exemplo p f
  show ?thesis by blast
qed

text \<open>
  C7, as stated, fails when a caller passes the key -1: \<^verbatim>\<open>inserir\<close> stores it like any
  other key. On a file of capacity 1 the call leaves slot 1 on the active chain, with key
  -1, and the free chain empty.
\<close>

theorem C7_chave_sentinela_ativa:
  "roda (inicializar 1 []) [Inserir \<lparr>chave = -1, nome = ''A''\<rparr>] = Some arq_sentinela \<and>
   ler arq_sentinela 1 = Some \<lparr>next = -1, prev = -1, reg = \<lparr>chave = -1, nome = ''A''\<rparr>\<rparr> \<and>
   map fst (cadeia_ativa arq_sentinela) = [1] \<and>
   cadeia_livre arq_sentinela = [] \<and>
   \<not> (chave (reg \<lparr>next = -1, prev = -1, reg = \<lparr>chave = -1, nome = ''A''\<rparr>\<rparr>) = -1 \<longleftrightarrow>
        1 \<in> set (map fst (cadeia_livre arq_sentinela)))"
proof -
  have "roda (inicializar 1 []) [Inserir \<lparr>chave = -1, nome = ''A''\<rparr>] = Some arq_sentinela"
    unfolding arq_sentinela_def by code_simp
  moreover have "ler arq_sentinela 1 =
      Some \<lparr>next = -1, prev = -1, reg = \<lparr>chave = -1, nome = ''A''\<rparr>\<rparr>"
    unfolding arq_sentinela_def by code_simp
  moreover have "map fst (cadeia_ativa arq_sentinela) = [1]"
    unfolding arq_sentinela_def by code_simp
  moreover have "cadeia_livre arq_sentinela = []"
    unfolding arq_sentinela_def by code_simp
  ultimately show ?thesis by simp
qed

text \<open>
  C7, amended. When no call of \<^verbatim>\<open>inserir\<close> or \<^verbatim>\<open>inserirOrdenado\<close> is given the key
  -1, then in every state reached from \<^verbatim>\<open>inicializar\<close> a slot of the file has the key -1
  if and only if it is on the free chain.
\<close>

theorem C7_sentinela_sse_livre:
  assumes "list_all chave_valida oprs" and "roda (inicializar n lixo) oprs = Some a"
    and "ler a pos = Some l"
  shows "chave (reg l) = -1 \<longleftrightarrow> pos \<in> set (map fst (cadeia_livre a))"
proof -
  from roda_alcanca [OF assms(2)] show ?thesis
  proof (elim disjE conjE)
    define as where "as = fst (abs_roda ([], [1..n]) oprs)"
    define fs where "fs = snd (abs_roda ([], [1..n]) oprs)"
    assume "representa a (fst (abs_roda ([], [1..n]) oprs)) (snd (abs_roda ([], [1..n]) oprs))"
    then have R: "representa a as fs"
      by (simp add: as_def fs_def)
    have V: "\<forall>x\<in>set as. chave (snd x) \<noteq> -1"
      unfolding as_def using assms(1) by (intro abs_roda_valida) simp_all
    from R ler_Some_range [OF assms(3)] have "pos \<in> set (map fst as) \<union> set fs"
      by (simp add: representa_def)
    then show ?thesis
    proof
      assume "pos \<in> set (map fst as)"
      then obtain x where x: "x \<in> set as" "fst x = pos" by auto
      from inv_ativa_le [OF R x(1)] x(2) assms(3) have "reg l = snd x" by simp
      moreover from R x have "pos \<notin> set fs" by (auto simp: representa_def)
      ultimately show ?thesis
        using V x(1) by (simp add: representa_cadeia_livre [OF R])
    next
      assume p: "pos \<in> set fs"
      from R have "livres (ler a) (free (cab a)) fs" by (simp add: representa_def)
      from livres_le [OF this p] assms(3) p show ?thesis
        by (simp add: representa_cadeia_livre [OF R])
    qed
  next
    assume "n \<le> 0" "a = inicializar n lixo"
    with cadeias_sem_slots [of n lixo] have "nos a = []" by simp
    with assms(3) show ?thesis
      by (simp add: ler_def split: if_splits)
  qed
qed

theorem C7_sentinela_sse_livre_witness:
  "list_all chave_valida oprs_exemplo \<and>
   roda (inicializar 3 ''??'') oprs_exemplo = Some arq_exemplo \<and>
   ler arq_exemplo 1 = Some \<lparr>next = 2, prev = -1, reg = \<lparr>chave = 2, nome = ''B''\<rparr>\<rparr> \<and>
   (chave (reg \<lparr>next = 2, prev = -1, reg = \<lparr>chave = 2, nome = ''B''\<rparr>\<rparr>) = -1 \<longleftrightarrow>
      1 \<in> set (map fst (cadeia_livre arq_exemplo)))"
proof -
  have h: "list_all chave_valida oprs_exemplo"
    by (simp add: oprs_exemplo_def)
  from C7_sentinela_sse_livre [OF h roda_exemplo cadeias_exemplo(4)] h roda_exemplo
    cadeias_exemplo(4)
  show ?thesis by simp
qed

text \<open>
  C8. In every state reached from \<^verbatim>\<open>inicializar\<close> by any sequence of calls of
  \<^verbatim>\<open>inserir\<close>, \<^verbatim>\<open>inserirOrdenado\<close> and \<^verbatim>\<open>remover\<close>, the count of the header is 0 if
  and only if both \<open>first\<close> and \<open>last\<close> are -1.
\<close>

theorem C8_vazia_sse_sem_extremos:
  assumes "roda (inicializar n lixo) oprs = Some a"
  shows "quant (cab a) = 0 \<longleftrightarrow> first (cab a) = -1 \<and> last_cab (cab a) = -1"
proof -
  from roda_alcanca [OF assms] show ?thesis
  proof (elim disjE conjE)
    fix as fs
    assume "representa a (fst (abs_roda ([], [1..n]) oprs)) (snd (abs_roda ([], [1..n]) oprs))"
    then show ?thesis
      using inv_first_vazia inv_last_vazia inv_quant by auto
  next
    assume "a = inicializar n lixo"
    then show ?thesis by (simp add: inicializar_def)
  qed
qed

theorem C8_vazia_sse_sem_extremos_witness:
  "roda (inicializar 3 ''??'') oprs_exemplo = Some arq_exemplo \<and>
   (quant (cab arq_exemplo) = 0 \<longleftrightarrow>
      first (cab arq_exemplo) = -1 \<and> last_cab (cab arq_exemplo) = -1)"
  using C8_vazia_sse_sem_extremos [OF roda_exemplo] roda_exemplo by simp

text \<open>
  C9. \<^verbatim>\<open>inicializar\<close> with capacity 3 on an empty file writes the header
  \<open>{quant = 0, first = -1, last = -1, free = 1, tam = 3}\<close> and three free slots with
  key -1 whose \<open>next\<close> fields are 2, 3 and -1, so that the free chain visits the
  positions 1, 2, 3.
\<close>

theorem C9_inicializar_3:
  "inicializar 3 lixo =
     \<lparr>cab = \<lparr>quant = 0, first = -1, last_cab = -1, free = 1, tam = 3\<rparr>,
      nos = [\<lparr>next = 2, prev = -1, reg = \<lparr>chave = -1, nome = lixo\<rparr>\<rparr>,
             \<lparr>next = 3, prev = -1, reg = \<lparr>chave = -1, nome = lixo\<rparr>\<rparr>,
             \<lparr>next = -1, prev = -1, reg = \<lparr>chave = -1, nome = lixo\<rparr>\<rparr>]\<rparr> \<and>
   map fst (cadeia_livre (inicializar 3 lixo)) = [1, 2, 3]"
proof -
  have "[1..3::int] = [1, 2, 3]"
    by (simp add: upto_rec1)
  then have e: "inicializar 3 lixo =
     \<lparr>cab = \<lparr>quant = 0, first = -1, last_cab = -1, free = 1, tam = 3\<rparr>,
      nos = [\<lparr>next = 2, prev = -1, reg = \<lparr>chave = -1, nome = lixo\<rparr>\<rparr>,
             \<lparr>next = 3, prev = -1, reg = \<lparr>chave = -1, nome = lixo\<rparr>\<rparr>,
             \<lparr>next = -1, prev = -1, reg = \<lparr>chave = -1, nome = lixo\<rparr>\<rparr>]\<rparr>"
    by (simp add: inicializar_def)
  have "map fst (cadeia_livre (inicializar 3 lixo)) = [1, 2, 3]"
    unfolding e by (simp add: cadeia_livre_def ler_def numeral_3_eq_3)
  with e show ?thesis by simp
qed

text \<open>
  C10. On a file whose header has \<open>first = last = -1\<close> and \<open>free \<noteq> -1\<close>,
  \<^verbatim>\<open>inserir\<close> and \<^verbatim>\<open>inserirOrdenado\<close> of the same record end the same way and leave the
  same file: the same header and the same contents in every slot.
\<close>

theorem C10_inserir_em_lista_vazia:
  assumes "first (cab a) = -1" and "last_cab (cab a) = -1" and "free (cab a) \<noteq> -1"
  shows "inserirOrdenado a d = inserir a d"
  using assms
  by (simp add: inserir_def inserirOrdenado_def pesquisa_lista_vazia inserir_livre_def
      inserirOrdenado_livre_def liga_ultimo_def encaixa_def Let_def split: option.splits)

theorem C10_inserir_em_lista_vazia_witness:
  "first (cab (inicializar 3 ''??'')) = -1 \<and> last_cab (cab (inicializar 3 ''??'')) = -1 \<and>
   free (cab (inicializar 3 ''??'')) \<noteq> -1 \<and>
   inserirOrdenado (inicializar 3 ''??'') \<lparr>chave = 5, nome = ''A''\<rparr> =
     inserir (inicializar 3 ''??'') \<lparr>chave = 5, nome = ''A''\<rparr> \<and>
   inserir (inicializar 3 ''??'') \<lparr>chave = 5, nome = ''A''\<rparr> =
     Some (Feito,
       \<lparr>cab = \<lparr>quant = 1, first = 1, last_cab = 1, free = 2, tam = 3\<rparr>,
        nos = [\<lparr>next = -1, prev = -1, reg = \<lparr>chave = 5, nome = ''A''\<rparr>\<rparr>,
               \<lparr>next = 3, prev = -1, reg = \<lparr>chave = -1, nome = ''??''\<rparr>\<rparr>,
               \<lparr>next = -1, prev = -1, reg = \<lparr>chave = -1, nome = ''??''\<rparr>\<rparr>]\<rparr>)"
proof -
  have h: "first (cab (inicializar 3 ''??'')) = -1" "last_cab (cab (inicializar 3 ''??'')) = -1"
    "free (cab (inicializar 3 ''??'')) \<noteq> -1"
    by (simp_all add: inicializar_def)
  have e: "inserir (inicializar 3 ''??'') \<lparr>chave = 5, nome = ''A''\<rparr> =
     Some (Feito,
       \<lparr>cab = \<lparr>quant = 1, first = 1, last_cab = 1, free = 2, tam = 3\<rparr>,
        nos = [\<lparr>next = -1, prev = -1, reg = \<lparr>chave = 5, nome = ''A''\<rparr>\<rparr>,
               \<lparr>next = 3, prev = -1, reg = \<lparr>chave = -1, nome = ''??''\<rparr>\<rparr>,
               \<lparr>next = -1, prev = -1, reg = \<lparr>chave = -1, nome = ''??''\<rparr>\<rparr>]\<rparr>)"
    by code_simp
  from C10_inserir_em_lista_vazia [OF h] h e show ?thesis by simp
qed

end
